theory Spec2Isabelle
  imports Complex_Main
begin

section \<open>Data model of \<^verbatim>\<open>blockchain.py\<close>\<close>

text \<open>
  The amount of a transaction is a Python number. The program compares it with \<open>0\<close> and
  \<^verbatim>\<open>json.dumps\<close> serialises it, and both depend on more than its numeric value: the
  integer \<open>100\<close> and the float \<open>100.0\<close> compare alike and serialise differently
  (\<open>100\<close> and \<open>100.0\<close>), and so do \<open>True\<close> and \<open>1\<close>, and \<open>0.0\<close> and \<open>-0.0\<close>. The type
  keeps these apart: an unbounded integer, a boolean, or a float, which is a finite value
  (a rational here; negative zero apart), an infinity or not-a-number.
\<close>

datatype number = PyInt int | PyBool bool | PyFloat rat | PyNegZero | PyInf | PyNegInf | PyNaN

text \<open>The comparison \<^verbatim>\<open>amount > 0\<close> of Python on these values.\<close>

fun gt_zero :: "number \<Rightarrow> bool" where
  "gt_zero (PyInt i) = (i > 0)"
| "gt_zero (PyBool b) = b"
| "gt_zero (PyFloat r) = (r > 0)"
| "gt_zero PyNegZero = False"
| "gt_zero PyInf = True"
| "gt_zero PyNegInf = False"
| "gt_zero PyNaN = False"

text \<open>
  A transaction is the dictionary \<^verbatim>\<open>{"sender": s, "receiver": r, "amount": a}\<close>.
  Sender and receiver are strings.
\<close>

record transaction =
  sender :: string
  receiver :: string
  amount :: number

text \<open>The attributes of class \<^verbatim>\<open>Block\<close>, in the order \<^verbatim>\<open>__init__\<close> assigns them.\<close>

record block =
  index :: int
  transactions :: "transaction list"
  timestamp :: string
  previous_hash :: string
  nonce :: int
  hash :: string

text \<open>The attributes of class \<^verbatim>\<open>Blockchain\<close>.\<close>

record blockchain =
  chain :: "block list"
  difficulty :: int
  pending_transactions :: "transaction list"

datatype error = IndexError

text \<open>The value a Python function returns when it ends without a \<^verbatim>\<open>return\<close> statement.\<close>

datatype NoneType = PyNone

section \<open>The digest\<close>

text \<open>
  \<^verbatim>\<open>calculate_hash\<close> builds the dictionary of the five content fields of a block and
  returns \<^verbatim>\<open>hashlib.sha256(json.dumps(d, sort_keys=True).encode()).hexdigest()\<close>.
  Both \<^verbatim>\<open>json.dumps\<close> and \<^verbatim>\<open>hashlib.sha256\<close> are library functions; their composition
  is a parameter \<open>H\<close> of the model, a function from the dictionary (here the tuple of
  its five values: index, transactions, timestamp, previous_hash, nonce) to the
  hexadecimal digest string. The stored \<open>hash\<close> attribute is not part of the dictionary.
\<close>

type_synonym block_dict = "int \<times> transaction list \<times> string \<times> string \<times> int"

type_synonym digest_fn = "block_dict \<Rightarrow> string"

definition block_dict_of :: "block \<Rightarrow> block_dict" where
  "block_dict_of b = (index b, transactions b, timestamp b, previous_hash b, nonce b)"

definition calculate_hash :: "digest_fn \<Rightarrow> block \<Rightarrow> string" where
  "calculate_hash H b = H (block_dict_of b)"

text \<open>
  The constructor \<^verbatim>\<open>Block(index, transactions, timestamp, previous_hash, nonce)\<close>: it stores
  the five arguments and sets \<open>hash\<close> to the digest of the block just built.
\<close>

definition Block :: "digest_fn \<Rightarrow> int \<Rightarrow> transaction list \<Rightarrow> string \<Rightarrow> string \<Rightarrow> int \<Rightarrow> block" where
  "Block H i txs ts ph n =
     \<lparr>index = i, transactions = txs, timestamp = ts, previous_hash = ph, nonce = n,
      hash = H (i, txs, ts, ph, n)\<rparr>"

section \<open>Strings\<close>

text \<open>\<^verbatim>\<open>s.startswith(p)\<close>: the first \<open>len(p)\<close> characters of \<open>s\<close> are \<open>p\<close>.\<close>

definition startswith :: "string \<Rightarrow> string \<Rightarrow> bool" where
  "startswith s p = (take (length p) s = p)"

text \<open>\<^verbatim>\<open>'0' * n\<close>: \<open>n\<close> copies of the character, none when \<open>n\<close> is negative.\<close>

definition zeros :: "int \<Rightarrow> string" where
  "zeros n = replicate (nat n) (CHR ''0'')"

text \<open>The decimal rendering of an integer that an f-string \<^verbatim>\<open>{i}\<close> produces.\<close>

definition digit_char :: "nat \<Rightarrow> char" where
  "digit_char d = ''0123456789'' ! d"

fun digits :: "nat \<Rightarrow> string" where
  "digits n = (if n < 10 then [digit_char n] else digits (n div 10) @ [digit_char (n mod 10)])"

declare digits.simps [simp del]

definition str_int :: "int \<Rightarrow> string" where
  "str_int i = (if i < 0 then CHR ''-'' # digits (nat (- i)) else digits (nat i))"

section \<open>Proof of work\<close>

text \<open>
  \<^verbatim>\<open>proof_of_work(self, block)\<close> sets \<open>block.nonce = 0\<close>, computes the digest, and while the
  digest does not start with \<open>'0' * self.difficulty\<close> increments the nonce and computes
  the digest again. The loop has no bound, so it is a partial function: \<open>None\<close> is the
  search that never ends. The result is the block as the search left it (only its nonce
  was written) together with the returned digest.
\<close>

partial_function (option) pow_loop ::
  "digest_fn \<Rightarrow> int \<Rightarrow> block \<Rightarrow> string \<Rightarrow> (block \<times> string) option" where
  "pow_loop H d block computed_hash =
     (if \<not> startswith computed_hash (zeros d)
      then pow_loop H d (block\<lparr>nonce := nonce block + 1\<rparr>)
                        (calculate_hash H (block\<lparr>nonce := nonce block + 1\<rparr>))
      else Some (block, computed_hash))"

definition proof_of_work :: "digest_fn \<Rightarrow> blockchain \<Rightarrow> block \<Rightarrow> (block \<times> string) option" where
  "proof_of_work H self block =
     pow_loop H (difficulty self) (block\<lparr>nonce := 0\<rparr>) (calculate_hash H (block\<lparr>nonce := 0\<rparr>))"

section \<open>The chain\<close>

text \<open>
  \<^verbatim>\<open>create_genesis_block\<close> builds block 0 with the single transaction
  \<^verbatim>\<open>{"sender": "Genesis", "receiver": "Network", "amount": 0}\<close>, the current time \<open>ts\<close>
  (read from the clock, an input of the model) and previous hash \<open>"0"\<close>, seals it with
  \<^verbatim>\<open>proof_of_work\<close> and appends it.
\<close>

definition genesis_transaction :: transaction where
  "genesis_transaction = \<lparr>sender = ''Genesis'', receiver = ''Network'', amount = PyInt 0\<rparr>"

definition create_genesis_block :: "digest_fn \<Rightarrow> string \<Rightarrow> blockchain \<Rightarrow> blockchain option" where
  "create_genesis_block H ts self =
     (case proof_of_work H self (Block H 0 [genesis_transaction] ts ''0'' 0) of
        None \<Rightarrow> None
      | Some (genesis_block, h) \<Rightarrow>
          Some (self\<lparr>chain := chain self @ [genesis_block\<lparr>hash := h\<rparr>]\<rparr>))"

text \<open>\<^verbatim>\<open>Blockchain.__init__\<close>: empty chain, difficulty 4, empty buffer, then the genesis block.\<close>

definition Blockchain :: "digest_fn \<Rightarrow> string \<Rightarrow> blockchain option" where
  "Blockchain H ts =
     create_genesis_block H ts \<lparr>chain = [], difficulty = 4, pending_transactions = []\<rparr>"

text \<open>\<^verbatim>\<open>get_latest_block\<close> is \<open>self.chain[-1]\<close>, which raises on an empty list.\<close>

definition get_latest_block :: "blockchain \<Rightarrow> error + block" where
  "get_latest_block self = (if chain self = [] then Inl IndexError else Inr (last (chain self)))"

text \<open>
  \<^verbatim>\<open>add_transaction\<close> has no \<^verbatim>\<open>return\<close> statement: it returns \<open>None\<close> on both
  branches. The model returns that value, the updated object and the lines printed.
\<close>

definition add_transaction ::
  "blockchain \<Rightarrow> string \<Rightarrow> string \<Rightarrow> number \<Rightarrow> NoneType \<times> blockchain \<times> string list" where
  "add_transaction self s r a =
     (if s \<noteq> [] \<and> r \<noteq> [] \<and> gt_zero a
      then (PyNone, self\<lparr>pending_transactions :=
                      pending_transactions self @ [\<lparr>sender = s, receiver = r, amount = a\<rparr>]\<rparr>, [])
      else (PyNone, self, [''Invalid transaction'']))"

text \<open>
  \<^verbatim>\<open>mine_block\<close> returns \<open>False\<close> on an empty buffer. Otherwise it builds the candidate
  block from the chain length, a copy of the buffer, the current time \<open>ts\<close> and the latest
  block's stored hash, seals it, appends it and replaces the buffer by an empty list.
  The outer \<open>option\<close> is the unbounded search, the sum is the exception of
  \<^verbatim>\<open>get_latest_block\<close>; in both cases no assignment to \<open>self\<close> has run.
\<close>

definition mine_block ::
  "digest_fn \<Rightarrow> string \<Rightarrow> blockchain \<Rightarrow> (error + bool \<times> blockchain \<times> string list) option" where
  "mine_block H ts self =
     (if pending_transactions self = []
      then Some (Inr (False, self, [''No transactions to mine.'']))
      else case get_latest_block self of
        Inl e \<Rightarrow> Some (Inl e)
      | Inr latest \<Rightarrow>
          (case proof_of_work H self
                  (Block H (int (length (chain self))) (pending_transactions self) ts
                     (hash latest) 0) of
             None \<Rightarrow> None
           | Some (block, h) \<Rightarrow>
               Some (Inr (True,
                 self\<lparr>chain := chain self @ [block\<lparr>hash := h\<rparr>], pending_transactions := []\<rparr>,
                 [''Block '' @ str_int (index block) @ '' successfully mined!'']))))"

text \<open>
  \<^verbatim>\<open>is_chain_valid\<close>: the loop \<^verbatim>\<open>for i in range(1, len(self.chain))\<close> as a recursion on
  \<open>i\<close>; the result is the returned boolean and the lines printed.
\<close>

function valid_loop :: "digest_fn \<Rightarrow> block list \<Rightarrow> nat \<Rightarrow> bool \<times> string list" where
  "valid_loop H ch i =
     (if i < length ch
      then (if hash (ch ! i) \<noteq> calculate_hash H (ch ! i)
            then (False, [''Block '' @ str_int (int i) @ '' has been tampered!''])
            else if previous_hash (ch ! i) \<noteq> hash (ch ! (i - 1))
            then (False, [''Block '' @ str_int (int i) @ '' has an invalid previous hash!''])
            else valid_loop H ch (i + 1))
      else (True, []))"
  by pat_completeness auto
termination
  by (relation "measure (\<lambda>(H, ch, i). length ch - i)") auto

declare valid_loop.simps [simp del]

definition is_chain_valid :: "digest_fn \<Rightarrow> blockchain \<Rightarrow> bool \<times> string list" where
  "is_chain_valid H self = valid_loop H (chain self) 1"

text \<open>
  A sequence of calls on a chain object. Each \<^verbatim>\<open>mine_block\<close> call reads the clock, so it
  carries the timestamp it reads. An exception or an endless search ends the run.
\<close>

datatype call = AddTransaction string string number | MineBlock string

fun run :: "digest_fn \<Rightarrow> blockchain \<Rightarrow> call list \<Rightarrow> (error + blockchain) option" where
  "run H self [] = Some (Inr self)"
| "run H self (AddTransaction s r a # cs) =
     run H (fst (snd (add_transaction self s r a))) cs"
| "run H self (MineBlock ts # cs) =
     (case mine_block H ts self of
        None \<Rightarrow> None
      | Some (Inl e) \<Rightarrow> Some (Inl e)
      | Some (Inr (ok, self', out)) \<Rightarrow> run H self' cs)"

section \<open>Properties\<close>

text \<open>The first \<open>d\<close> characters of a digest exist and are all \<open>'0'\<close>.\<close>

definition meets_target :: "int \<Rightarrow> string \<Rightarrow> bool" where
  "meets_target d h = (nat d \<le> length h \<and> list_all (\<lambda>c. c = CHR ''0'') (take (nat d) h))"

text \<open>The digest of a block's other fields together with nonce \<open>n\<close>.\<close>

definition digest_at :: "digest_fn \<Rightarrow> block \<Rightarrow> int \<Rightarrow> string" where
  "digest_at H b n = calculate_hash H (b\<lparr>nonce := n\<rparr>)"

text \<open>
  What the search guarantees about its result \<open>r\<close> when started on block \<open>b\<close>: the digest
  meets the target, it is the digest of the returned block, and the returned block is \<open>b\<close>
  with its nonce advanced by \<open>k\<close> steps, none of the earlier \<open>k\<close> nonces meeting the target.
\<close>

definition pow_post :: "digest_fn \<Rightarrow> int \<Rightarrow> block \<Rightarrow> block \<times> string \<Rightarrow> bool" where
  "pow_post H d b r =
     (startswith (snd r) (zeros d) \<and> snd r = calculate_hash H (fst r) \<and>
      (\<exists>k. fst r = b\<lparr>nonce := nonce b + int k\<rparr> \<and>
           (\<forall>j < k. \<not> startswith (digest_at H b (nonce b + int j)) (zeros d))))"

text \<open>Block \<open>i\<close> of a chain passes both checks of \<^verbatim>\<open>is_chain_valid\<close>.\<close>

definition block_passes :: "digest_fn \<Rightarrow> block list \<Rightarrow> nat \<Rightarrow> bool" where
  "block_passes H ch i =
     (hash (ch ! i) = calculate_hash H (ch ! i) \<and> previous_hash (ch ! i) = hash (ch ! (i - 1)))"

text \<open>The invariant the specification states for a transaction.\<close>

definition tx_invariant :: "transaction \<Rightarrow> bool" where
  "tx_invariant t = (gt_zero (amount t) \<and> sender t \<noteq> [] \<and> receiver t \<noteq> [])"

text \<open>
  The invariant of the chain object that \<^verbatim>\<open>__init__\<close> establishes and the two operations
  keep: the chain is not empty, every block from index 1 on passes both checks, block 0
  holds the genesis transaction, and every transaction in the buffer and in a later block
  satisfies the transaction invariant.
\<close>

definition chain_inv :: "digest_fn \<Rightarrow> blockchain \<Rightarrow> bool" where
  "chain_inv H bc =
     (chain bc \<noteq> [] \<and>
      (\<forall>j. 1 \<le> j \<and> j < length (chain bc) \<longrightarrow> block_passes H (chain bc) j) \<and>
      transactions (chain bc ! 0) = [genesis_transaction] \<and>
      (\<forall>t \<in> set (pending_transactions bc). tx_invariant t) \<and>
      (\<forall>j. 1 \<le> j \<and> j < length (chain bc) \<longrightarrow>
           (\<forall>t \<in> set (transactions (chain bc ! j)). tx_invariant t)))"

text \<open>The block that \<^verbatim>\<open>mine_block\<close> constructs and hands to the search.\<close>

definition candidate :: "digest_fn \<Rightarrow> string \<Rightarrow> blockchain \<Rightarrow> block" where
  "candidate H ts self =
     Block H (int (length (chain self))) (pending_transactions self) ts (hash (last (chain self))) 0"

section \<open>A small digest for concrete runs\<close>

text \<open>
  SHA-256 cannot be run inside the logic at difficulty 4, so concrete runs use a small
  stand-in: the digest of a dictionary is \<open>nonce\<close> zeros, the letter \<open>f\<close> and a decimal
  checksum of the other fields. Its search at difficulty \<open>d\<close> ends at nonce \<open>d\<close>.
\<close>

fun amount_sum :: "number \<Rightarrow> nat" where
  "amount_sum (PyInt i) = nat \<bar>i\<bar>"
| "amount_sum (PyBool b) = 0"
| "amount_sum (PyFloat r) = nat \<lfloor>\<bar>r\<bar>\<rfloor> + 1"
| "amount_sum PyNegZero = 1"
| "amount_sum PyInf = 1"
| "amount_sum PyNegInf = 1"
| "amount_sum PyNaN = 1"

definition tx_sum :: "transaction \<Rightarrow> nat" where
  "tx_sum t = length (sender t) + length (receiver t) + amount_sum (amount t)"

definition demo_digest :: digest_fn where
  "demo_digest dict = (case dict of (i, txs, ts, ph, n) \<Rightarrow>
     zeros n @ ''f'' @ digits (nat \<bar>i\<bar> + sum_list (map tx_sum txs) + length ts + length ph))"

definition demo_genesis :: block where
  "demo_genesis = \<lparr>index = 0, transactions = [genesis_transaction],
     timestamp = ''2024-01-01 00:00:00'', previous_hash = ''0'', nonce = 4, hash = ''0000f34''\<rparr>"

definition demo_block1 :: block where
  "demo_block1 = \<lparr>index = 1,
     transactions = [\<lparr>sender = ''Alice'', receiver = ''Bob'', amount = PyFloat (3 / 2)\<rparr>,
                     \<lparr>sender = ''Bob'', receiver = ''Charlie'', amount = PyFloat (4 / 5)\<rparr>],
     timestamp = ''2024-01-01 00:00:01'', previous_hash = ''0000f34'', nonce = 4,
     hash = ''0000f48''\<rparr>"

definition demo_block2 :: block where
  "demo_block2 = \<lparr>index = 2,
     transactions = [\<lparr>sender = ''Charlie'', receiver = ''Dave'', amount = PyFloat (11 / 5)\<rparr>],
     timestamp = ''2024-01-01 00:00:02'', previous_hash = ''0000f48'', nonce = 4,
     hash = ''0000f42''\<rparr>"

text \<open>Block 1 with the amount of its first transaction overwritten by 100, hash untouched.\<close>

definition demo_block1_tampered :: block where
  "demo_block1_tampered = demo_block1\<lparr>transactions :=
     [\<lparr>sender = ''Alice'', receiver = ''Bob'', amount = PyInt 100\<rparr>,
      \<lparr>sender = ''Bob'', receiver = ''Charlie'', amount = PyFloat (4 / 5)\<rparr>]\<rparr>"

text \<open>Block 2 with its timestamp overwritten, hash untouched.\<close>

definition demo_block2_tampered :: block where
  "demo_block2_tampered = demo_block2\<lparr>timestamp := ''1999-12-31''\<rparr>"

definition demo_chain0 :: blockchain where
  "demo_chain0 = \<lparr>chain = [demo_genesis], difficulty = 4, pending_transactions = []\<rparr>"

definition demo_chain2 :: blockchain where
  "demo_chain2 = \<lparr>chain = [demo_genesis, demo_block1, demo_block2], difficulty = 4,
     pending_transactions = []\<rparr>"

text \<open>The calls of the program's own demonstration.\<close>

definition demo_calls :: "call list" where
  "demo_calls =
     [AddTransaction ''Alice'' ''Bob'' (PyFloat (3 / 2)), AddTransaction ''Bob'' ''Charlie'' (PyFloat (4 / 5)),
      MineBlock ''2024-01-01 00:00:01'', AddTransaction ''Charlie'' ''Dave'' (PyFloat (11 / 5)),
      MineBlock ''2024-01-01 00:00:02'']"

text \<open>The candidate block of the first \<^verbatim>\<open>mine_block\<close> call of that run.\<close>

definition demo_candidate :: block where
  "demo_candidate = Block demo_digest 1 (transactions demo_block1) ''2024-01-01 00:00:01''
     ''0000f34'' 0"

text \<open>The chain of the run at three moments, a chain with a damaged block, a damaged genesis.\<close>

definition demo_chain0_pending :: blockchain where
  "demo_chain0_pending = demo_chain0\<lparr>pending_transactions := transactions demo_block1\<rparr>"

definition demo_chain1 :: blockchain where
  "demo_chain1 = \<lparr>chain = [demo_genesis, demo_block1], difficulty = 4, pending_transactions = []\<rparr>"

definition demo_chain2_broken :: blockchain where
  "demo_chain2_broken = \<lparr>chain = [demo_genesis, demo_block1_tampered, demo_block2],
     difficulty = 4, pending_transactions = []\<rparr>"

definition demo_genesis_tampered :: block where
  "demo_genesis_tampered = demo_genesis\<lparr>index := 7,
     transactions := [\<lparr>sender = ''Genesis'', receiver = ''Mallory'', amount = PyInt 50\<rparr>],
     timestamp := ''1970-01-01 00:00:00'', nonce := 9\<rparr>"

text \<open>Block 2 with its timestamp overwritten by one of the same length, hash untouched.\<close>

definition demo_block2_retimed :: block where
  "demo_block2_retimed = demo_block2\<lparr>timestamp := ''2024-01-01 00:00:03''\<rparr>"

section \<open>The target test\<close>

lemma startswith_zeros: "startswith h (zeros d) = meets_target d h"
proof
  assume "startswith h (zeros d)"
  then have eq: "take (nat d) h = replicate (nat d) (CHR ''0'')"
    by (simp add: startswith_def zeros_def)
  then have "length (take (nat d) h) = nat d" by simp
  then have "nat d \<le> length h" by simp
  moreover have "list_all (\<lambda>c. c = CHR ''0'') (take (nat d) h)"
    unfolding eq by (simp add: list_all_iff)
  ultimately show "meets_target d h" by (simp add: meets_target_def)
next
  assume "meets_target d h"
  then have len: "nat d \<le> length h" and all: "\<forall>c \<in> set (take (nat d) h). c = CHR ''0''"
    by (simp_all add: meets_target_def list_all_iff)
  from all have "replicate (length (take (nat d) h)) (CHR ''0'') = take (nat d) h"
    by (rule replicate_length_same)
  moreover from len have "length (take (nat d) h) = nat d" by simp
  ultimately have "take (nat d) h = replicate (nat d) (CHR ''0'')" by simp
  then show "startswith h (zeros d)"
    by (simp add: startswith_def zeros_def)
qed

section \<open>The search\<close>

lemma pow_loop_hit:
  "startswith h (zeros d) \<Longrightarrow> pow_loop H d b h = Some (b, h)"
  by (subst pow_loop.simps) simp

lemma pow_loop_miss:
  "\<not> startswith h (zeros d) \<Longrightarrow>
   pow_loop H d b h =
     pow_loop H d (b\<lparr>nonce := nonce b + 1\<rparr>) (calculate_hash H (b\<lparr>nonce := nonce b + 1\<rparr>))"
  by (subst pow_loop.simps) simp

lemma pow_post_hit:
  "startswith (calculate_hash H b) (zeros d) \<Longrightarrow> pow_post H d b (b, calculate_hash H b)"
  unfolding pow_post_def by (auto intro!: exI [of _ 0])

lemma pow_post_step:
  assumes miss: "\<not> startswith (calculate_hash H b) (zeros d)"
    and post: "pow_post H d (b\<lparr>nonce := nonce b + 1\<rparr>) r"
  shows "pow_post H d b r"
proof -
  let ?b = "b\<lparr>nonce := nonce b + 1\<rparr>"
  from post obtain k where hit: "startswith (snd r) (zeros d)"
    and h': "snd r = calculate_hash H (fst r)"
    and b': "fst r = ?b\<lparr>nonce := nonce ?b + int k\<rparr>"
    and rest: "\<forall>j < k. \<not> startswith (digest_at H ?b (nonce ?b + int j)) (zeros d)"
    unfolding pow_post_def by blast
  have "fst r = b\<lparr>nonce := nonce b + int (Suc k)\<rparr>"
    using b' by (simp add: add.assoc)
  moreover have "\<not> startswith (digest_at H b (nonce b + int j)) (zeros d)" if j: "j < Suc k" for j
  proof (cases j)
    case 0
    with miss show ?thesis by (simp add: digest_at_def)
  next
    case (Suc j')
    with j rest have "\<not> startswith (digest_at H ?b (nonce ?b + int j')) (zeros d)" by simp
    with Suc show ?thesis by (simp add: digest_at_def add.assoc)
  qed
  ultimately show ?thesis unfolding pow_post_def using hit h' by blast
qed

text \<open>Partial correctness of the loop, by the fixpoint induction of its definition.\<close>

lemma pow_loop_sound:
  "pow_loop H d b h = Some r \<Longrightarrow> h = calculate_hash H b \<longrightarrow> pow_post H d b r"
proof (rule pow_loop.raw_induct [where P = "\<lambda>H d b h r. h = calculate_hash H b \<longrightarrow> pow_post H d b r"])
  fix loop H d b h r
  assume IH: "\<And>H d b h r. loop H d b h = Some r \<Longrightarrow> h = calculate_hash H b \<longrightarrow> pow_post H d b r"
    and body: "(if \<not> startswith h (zeros d)
                then loop H d (b\<lparr>nonce := nonce b + 1\<rparr>) (calculate_hash H (b\<lparr>nonce := nonce b + 1\<rparr>))
                else Some (b, h)) = Some r"
  show "h = calculate_hash H b \<longrightarrow> pow_post H d b r"
  proof
    assume h: "h = calculate_hash H b"
    show "pow_post H d b r"
    proof (cases "startswith h (zeros d)")
      case True
      with body have "r = (b, h)" by simp
      with True h show ?thesis by (simp add: pow_post_hit)
    next
      case False
      with body have "loop H d (b\<lparr>nonce := nonce b + 1\<rparr>)
                        (calculate_hash H (b\<lparr>nonce := nonce b + 1\<rparr>)) = Some r" by simp
      from IH [OF this] have "pow_post H d (b\<lparr>nonce := nonce b + 1\<rparr>) r" by simp
      with False h show ?thesis by (simp add: pow_post_step)
    qed
  qed
qed

text \<open>The loop returns as soon as some nonce ahead meets the target.\<close>

lemma pow_loop_complete:
  "\<forall>j < k. \<not> startswith (digest_at H b (nonce b + int j)) (zeros d) \<Longrightarrow>
   startswith (digest_at H b (nonce b + int k)) (zeros d) \<Longrightarrow>
   pow_loop H d b (calculate_hash H b) =
     Some (b\<lparr>nonce := nonce b + int k\<rparr>, digest_at H b (nonce b + int k))"
proof (induction k arbitrary: b)
  case 0
  then have "startswith (calculate_hash H b) (zeros d)" by (simp add: digest_at_def)
  then show ?case by (simp add: pow_loop_hit digest_at_def)
next
  case (Suc k)
  let ?b = "b\<lparr>nonce := nonce b + 1\<rparr>"
  from Suc.prems(1) have miss: "\<not> startswith (calculate_hash H b) (zeros d)"
    by (auto simp: digest_at_def dest: spec [of _ 0])
  have "\<forall>j < k. \<not> startswith (digest_at H ?b (nonce ?b + int j)) (zeros d)"
  proof (intro allI impI)
    fix j assume "j < k"
    then have "Suc j < Suc k" by simp
    with Suc.prems(1) have "\<not> startswith (digest_at H b (nonce b + int (Suc j))) (zeros d)"
      by blast
    then show "\<not> startswith (digest_at H ?b (nonce ?b + int j)) (zeros d)"
      by (simp add: digest_at_def add.assoc)
  qed
  moreover have "startswith (digest_at H ?b (nonce ?b + int k)) (zeros d)"
    using Suc.prems(2) by (simp add: digest_at_def add.assoc)
  ultimately have "pow_loop H d ?b (calculate_hash H ?b) =
     Some (?b\<lparr>nonce := nonce ?b + int k\<rparr>, digest_at H ?b (nonce ?b + int k))"
    by (rule Suc.IH)
  then show ?case using miss
    by (simp add: pow_loop_miss digest_at_def add.assoc)
qed

text \<open>What a returning \<^verbatim>\<open>proof_of_work\<close> call has done, in terms of the block passed in.\<close>

lemma proof_of_work_result:
  assumes "proof_of_work H self block = Some (block', h)"
  shows "\<exists>k. block' = block\<lparr>nonce := int k\<rparr> \<and> h = digest_at H block (int k) \<and>
             meets_target (difficulty self) h \<and>
             (\<forall>j < k. \<not> meets_target (difficulty self) (digest_at H block (int j)))"
proof -
  let ?b = "block\<lparr>nonce := 0\<rparr>"
  from assms have "pow_loop H (difficulty self) ?b (calculate_hash H ?b) = Some (block', h)"
    by (simp add: proof_of_work_def)
  then have "pow_post H (difficulty self) ?b (block', h)"
    using pow_loop_sound by blast
  then obtain k where hit: "startswith h (zeros (difficulty self))"
    and h: "h = calculate_hash H block'"
    and b': "block' = ?b\<lparr>nonce := nonce ?b + int k\<rparr>"
    and rest: "\<forall>j < k. \<not> startswith (digest_at H ?b (nonce ?b + int j)) (zeros (difficulty self))"
    unfolding pow_post_def by auto
  from b' have 1: "block' = block\<lparr>nonce := int k\<rparr>" by simp
  from h 1 have 2: "h = digest_at H block (int k)" by (simp add: digest_at_def)
  from rest have 3: "\<forall>j < k. \<not> meets_target (difficulty self) (digest_at H block (int j))"
    by (simp add: digest_at_def startswith_zeros)
  from hit have 4: "meets_target (difficulty self) h" by (simp add: startswith_zeros)
  from 1 2 3 4 show ?thesis by blast
qed

text \<open>The search returns when some non-negative nonce meets the target.\<close>

lemma proof_of_work_returns:
  assumes n: "0 \<le> n" and hit: "meets_target (difficulty self) (digest_at H block n)"
  shows "\<exists>r. proof_of_work H self block = Some r"
proof -
  let ?b = "block\<lparr>nonce := 0\<rparr>"
  let ?P = "\<lambda>k. startswith (digest_at H ?b (nonce ?b + int k)) (zeros (difficulty self))"
  from n hit have "?P (nat n)" by (simp add: digest_at_def startswith_zeros)
  then have least: "?P (LEAST k. ?P k)" by (rule LeastI)
  have "\<forall>j < (LEAST k. ?P k). \<not> ?P j" using not_less_Least by blast
  from pow_loop_complete [OF this least] show ?thesis
    by (simp add: proof_of_work_def)
qed

text \<open>The search never returns when no non-negative nonce meets the target.\<close>

lemma proof_of_work_diverges:
  assumes "\<forall>n \<ge> 0. \<not> meets_target (difficulty self) (digest_at H block n)"
  shows "proof_of_work H self block = None"
proof (cases "proof_of_work H self block")
  case None
  then show ?thesis .
next
  case (Some r)
  then have "proof_of_work H self block = Some (fst r, snd r)" by simp
  from proof_of_work_result [OF this] assms show ?thesis by auto
qed

section \<open>Runs with the small digest\<close>

lemma startswith_zeros_f:
  "startswith (zeros n @ CHR ''f'' # rest) (zeros d) \<longleftrightarrow> nat d \<le> nat n"
proof (cases "nat d \<le> nat n")
  case True
  then show ?thesis by (simp add: startswith_def zeros_def take_replicate min_def)
next
  case False
  then have lt: "nat n < nat d" by linarith
  let ?l = "take (nat d) (replicate (nat n) CHR ''0'' @ CHR ''f'' # rest)"
  have f: "?l ! nat n = CHR ''f''"
    using lt by (simp add: nth_append)
  have "?l \<noteq> replicate (nat d) CHR ''0''"
  proof
    assume "?l = replicate (nat d) CHR ''0''"
    then have "?l ! nat n = replicate (nat d) CHR ''0'' ! nat n" by (rule arg_cong)
    with f lt show False by simp
  qed
  with False show ?thesis by (simp add: startswith_def zeros_def)
qed

lemma demo_target:
  "startswith (calculate_hash demo_digest b) (zeros d) \<longleftrightarrow> nat d \<le> nat (nonce b)"
  by (simp add: calculate_hash_def block_dict_of_def demo_digest_def startswith_zeros_f)

lemma demo_proof_of_work:
  assumes "0 \<le> difficulty self"
  shows "proof_of_work demo_digest self b =
     Some (b\<lparr>nonce := difficulty self\<rparr>, calculate_hash demo_digest (b\<lparr>nonce := difficulty self\<rparr>))"
proof -
  let ?b = "b\<lparr>nonce := 0\<rparr>"
  let ?k = "nat (difficulty self)"
  have "pow_loop demo_digest (difficulty self) ?b (calculate_hash demo_digest ?b) =
     Some (?b\<lparr>nonce := nonce ?b + int ?k\<rparr>, digest_at demo_digest ?b (nonce ?b + int ?k))"
    by (rule pow_loop_complete) (simp_all add: digest_at_def demo_target)
  then show ?thesis using assms by (simp add: proof_of_work_def digest_at_def)
qed

lemma demo_digest_genesis:
  "demo_digest (0, [\<lparr>sender = ''Genesis'', receiver = ''Network'', amount = PyInt 0\<rparr>],
      ''2024-01-01 00:00:00'', ''0'', 4) = ''0000f34''"
  by code_simp

lemma demo_digest_block1:
  "demo_digest (1, [\<lparr>sender = ''Alice'', receiver = ''Bob'', amount = PyFloat (3 / 2)\<rparr>,
                    \<lparr>sender = ''Bob'', receiver = ''Charlie'', amount = PyFloat (4 / 5)\<rparr>],
      ''2024-01-01 00:00:01'', ''0000f34'', 4) = ''0000f48''"
  by code_simp

lemma demo_digest_block2:
  "demo_digest (2, [\<lparr>sender = ''Charlie'', receiver = ''Dave'', amount = PyFloat (11 / 5)\<rparr>],
      ''2024-01-01 00:00:02'', ''0000f48'', 4) = ''0000f42''"
  by code_simp

lemma str_int_1: "str_int 1 = ''1''"
  by code_simp

lemma str_int_2: "str_int 2 = ''2''"
  by code_simp

lemma demo_Blockchain: "Blockchain demo_digest ''2024-01-01 00:00:00'' = Some demo_chain0"
  by (simp add: Blockchain_def create_genesis_block_def demo_proof_of_work Block_def
      genesis_transaction_def calculate_hash_def block_dict_of_def demo_digest_genesis
      demo_chain0_def demo_genesis_def)

lemma demo_run: "run demo_digest demo_chain0 demo_calls = Some (Inr demo_chain2)"
  by (simp add: demo_calls_def demo_chain0_def demo_chain2_def demo_genesis_def demo_block1_def
      demo_block2_def add_transaction_def mine_block_def get_latest_block_def
      demo_proof_of_work Block_def calculate_hash_def block_dict_of_def
      demo_digest_block1 demo_digest_block2 str_int_1 str_int_2)

lemma demo_candidate_search:
  "proof_of_work demo_digest demo_chain0 demo_candidate =
     Some (demo_candidate\<lparr>nonce := 4\<rparr>, ''0000f48'')"
  by (simp add: demo_proof_of_work demo_chain0_def demo_candidate_def Block_def demo_block1_def
      calculate_hash_def block_dict_of_def demo_digest_block1)


section \<open>Claims about the search and the genesis block\<close>

lemma meets_target_nth:
  "meets_target d h \<Longrightarrow> i < nat d \<Longrightarrow> h ! i = CHR ''0''"
proof -
  assume m: "meets_target d h" and i: "i < nat d"
  then have "i < length (take (nat d) h)" by (simp add: meets_target_def)
  moreover from m have "\<forall>n < length (take (nat d) h). take (nat d) h ! n = CHR ''0''"
    by (simp add: meets_target_def list_all_length)
  ultimately have "take (nat d) h ! i = CHR ''0''" by blast
  with i show ?thesis by simp
qed

text \<open>
  C2. Whenever \<^verbatim>\<open>proof_of_work\<close> returns, the first \<open>difficulty\<close> characters of the returned
  digest are all \<open>'0'\<close>, and recomputing the digest of the block from its stored fields,
  with the nonce the search left in it, gives exactly the returned digest (also after the
  caller has stored that digest in the block's \<open>hash\<close> attribute).
\<close>

theorem proof_of_work_digest_valid:
  assumes "proof_of_work H self block = Some (block', h)"
  shows "meets_target (difficulty self) h \<and>
         nat (difficulty self) \<le> length h \<and>
         (\<forall>i < nat (difficulty self). h ! i = CHR ''0'') \<and>
         calculate_hash H block' = h \<and>
         calculate_hash H (block'\<lparr>hash := h\<rparr>) = h"
proof -
  from proof_of_work_result [OF assms] obtain k where
    b': "block' = block\<lparr>nonce := int k\<rparr>" and h: "h = digest_at H block (int k)"
    and m: "meets_target (difficulty self) h" by blast
  from b' h have c: "calculate_hash H block' = h" by (simp add: digest_at_def)
  then have "calculate_hash H (block'\<lparr>hash := h\<rparr>) = h"
    by (simp add: calculate_hash_def block_dict_of_def)
  moreover from m have "nat (difficulty self) \<le> length h" by (simp add: meets_target_def)
  ultimately show ?thesis using m c meets_target_nth [OF m] by blast
qed

theorem proof_of_work_digest_valid_witness:
  "proof_of_work demo_digest demo_chain0 demo_candidate =
     Some (demo_candidate\<lparr>nonce := 4\<rparr>, ''0000f48'') \<and>
   meets_target (difficulty demo_chain0) ''0000f48'' \<and>
   calculate_hash demo_digest (demo_candidate\<lparr>nonce := 4\<rparr>) = ''0000f48'' \<and>
   calculate_hash demo_digest (demo_candidate\<lparr>nonce := 4, hash := ''0000f48''\<rparr>) = ''0000f48''"
  using proof_of_work_digest_valid [OF demo_candidate_search] demo_candidate_search
  by simp

text \<open>
  C9. \<^verbatim>\<open>proof_of_work\<close> ignores the nonce the block held before the call. Whenever it
  returns, the block is the one passed in with only its nonce changed, that nonce is the
  least non-negative integer at which the digest of the block's other fields meets the
  target, the returned digest is the digest at that nonce, and a second call on the
  resulting block returns the same block and the same digest.
\<close>

theorem proof_of_work_least_nonce:
  "proof_of_work H self (block\<lparr>nonce := n0\<rparr>) = proof_of_work H self block \<and>
   (proof_of_work H self block = Some (block', h) \<longrightarrow>
      block' = block\<lparr>nonce := nonce block'\<rparr> \<and> 0 \<le> nonce block' \<and>
      h = digest_at H block (nonce block') \<and> meets_target (difficulty self) h \<and>
      (\<forall>n. 0 \<le> n \<and> n < nonce block' \<longrightarrow>
           \<not> meets_target (difficulty self) (digest_at H block n)) \<and>
      proof_of_work H self block' = Some (block', h))"
proof (intro conjI impI)
  show "proof_of_work H self (block\<lparr>nonce := n0\<rparr>) = proof_of_work H self block"
    by (simp add: proof_of_work_def)
next
  assume ret: "proof_of_work H self block = Some (block', h)"
  from proof_of_work_result [OF ret] obtain k where
    b': "block' = block\<lparr>nonce := int k\<rparr>" and h: "h = digest_at H block (int k)"
    and m: "meets_target (difficulty self) h"
    and least: "\<forall>j < k. \<not> meets_target (difficulty self) (digest_at H block (int j))" by blast
  from b' have n: "nonce block' = int k" by simp
  show "block' = block\<lparr>nonce := nonce block'\<rparr>" using b' by simp
  show "0 \<le> nonce block'" using n by simp
  show "h = digest_at H block (nonce block')" using h n by simp
  show "meets_target (difficulty self) h" by (rule m)
  show "\<forall>n. 0 \<le> n \<and> n < nonce block' \<longrightarrow>
           \<not> meets_target (difficulty self) (digest_at H block n)"
  proof (intro allI impI)
    fix m' :: int assume "0 \<le> m' \<and> m' < nonce block'"
    then have "nat m' < k" and "int (nat m') = m'" using n by linarith+
    with least show "\<not> meets_target (difficulty self) (digest_at H block m')" by metis
  qed
  have "proof_of_work H self block' = proof_of_work H self block"
    by (subst b') (simp add: proof_of_work_def)
  with ret show "proof_of_work H self block' = Some (block', h)" by simp
qed

theorem proof_of_work_least_nonce_witness:
  "proof_of_work demo_digest demo_chain0 (demo_candidate\<lparr>nonce := 17\<rparr>) =
     Some (demo_candidate\<lparr>nonce := 4\<rparr>, ''0000f48'') \<and>
   \<not> meets_target (difficulty demo_chain0) (digest_at demo_digest demo_candidate 3) \<and>
   \<not> meets_target (difficulty demo_chain0) (digest_at demo_digest demo_candidate 0) \<and>
   proof_of_work demo_digest demo_chain0 (demo_candidate\<lparr>nonce := 4\<rparr>) =
     Some (demo_candidate\<lparr>nonce := 4\<rparr>, ''0000f48'')"
proof -
  note w = proof_of_work_least_nonce [where H = demo_digest and self = demo_chain0
      and block = demo_candidate and ?n0.0 = 17 and block' = "demo_candidate\<lparr>nonce := 4\<rparr>"
      and h = "''0000f48''"]
  from w demo_candidate_search
  have least: "\<forall>n. 0 \<le> n \<and> n < 4 \<longrightarrow>
      \<not> meets_target (difficulty demo_chain0) (digest_at demo_digest demo_candidate n)"
    and again: "proof_of_work demo_digest demo_chain0 (demo_candidate\<lparr>nonce := 4\<rparr>) =
      Some (demo_candidate\<lparr>nonce := 4\<rparr>, ''0000f48'')"
    and reset: "proof_of_work demo_digest demo_chain0 (demo_candidate\<lparr>nonce := 17\<rparr>) =
      Some (demo_candidate\<lparr>nonce := 4\<rparr>, ''0000f48'')"
    by simp_all
  from least have "\<not> meets_target (difficulty demo_chain0) (digest_at demo_digest demo_candidate 3)"
    and "\<not> meets_target (difficulty demo_chain0) (digest_at demo_digest demo_candidate 0)"
    by simp_all
  with again reset show ?thesis by blast
qed

lemma Blockchain_result:
  assumes "Blockchain H ts = Some bc"
  shows "\<exists>g h. proof_of_work H \<lparr>chain = [], difficulty = 4, pending_transactions = []\<rparr>
                 (Block H 0 [genesis_transaction] ts ''0'' 0) = Some (g, h) \<and>
               bc = \<lparr>chain = [g\<lparr>hash := h\<rparr>], difficulty = 4, pending_transactions = []\<rparr>"
  using assms
  by (auto simp: Blockchain_def create_genesis_block_def split: option.splits)

text \<open>The constructor returns when some non-negative nonce meets the target at difficulty 4.\<close>

lemma Blockchain_returns:
  assumes "0 \<le> n"
    and "meets_target 4 (digest_at H (Block H 0 [genesis_transaction] ts ''0'' 0) n)"
  shows "\<exists>bc. Blockchain H ts = Some bc"
proof -
  let ?self = "\<lparr>chain = [], difficulty = 4, pending_transactions = []\<rparr>"
  from assms have "\<exists>r. proof_of_work H ?self (Block H 0 [genesis_transaction] ts ''0'' 0) = Some r"
    by (intro proof_of_work_returns [of n]) simp_all
  then obtain r where "proof_of_work H ?self (Block H 0 [genesis_transaction] ts ''0'' 0) = Some r"
    by blast
  then show ?thesis
    by (cases r) (simp add: Blockchain_def create_genesis_block_def)
qed

text \<open>
  C5. A freshly constructed chain has exactly one block; its previous hash is \<open>"0"\<close>, and
  its stored hash meets the difficulty target (difficulty 4), because it is the digest
  that the same \<^verbatim>\<open>proof_of_work\<close> search returned for the genesis candidate.
\<close>

theorem genesis_invariant:
  assumes "Blockchain H ts = Some bc"
  shows "length (chain bc) = 1 \<and> previous_hash (chain bc ! 0) = ''0'' \<and>
         difficulty bc = 4 \<and> meets_target (difficulty bc) (hash (chain bc ! 0)) \<and>
         (\<forall>i < 4. hash (chain bc ! 0) ! i = CHR ''0'') \<and>
         hash (chain bc ! 0) = calculate_hash H (chain bc ! 0) \<and>
         (\<exists>g h. proof_of_work H \<lparr>chain = [], difficulty = 4, pending_transactions = []\<rparr>
                   (Block H 0 [genesis_transaction] ts ''0'' 0) = Some (g, h) \<and>
                 chain bc = [g\<lparr>hash := h\<rparr>])"
proof -
  let ?self = "\<lparr>chain = [], difficulty = 4, pending_transactions = []\<rparr>"
  let ?cand = "Block H 0 [genesis_transaction] ts ''0'' 0"
  from Blockchain_result [OF assms] obtain g h where
    pow: "proof_of_work H ?self ?cand = Some (g, h)"
    and bc: "bc = \<lparr>chain = [g\<lparr>hash := h\<rparr>], difficulty = 4, pending_transactions = []\<rparr>"
    by blast
  from proof_of_work_result [OF pow] obtain k where
    g: "g = ?cand\<lparr>nonce := int k\<rparr>" and h: "h = digest_at H ?cand (int k)"
    and m: "meets_target (difficulty ?self) h" by blast
  from g h have c: "calculate_hash H (g\<lparr>hash := h\<rparr>) = h"
    by (simp add: digest_at_def calculate_hash_def block_dict_of_def)
  from m have m4: "meets_target 4 h" by simp
  have "\<forall>i < 4. h ! i = CHR ''0''" using meets_target_nth [OF m4] by simp
  with bc g m4 c pow show ?thesis by (simp add: Block_def)
qed

theorem genesis_invariant_witness:
  "Blockchain demo_digest ''2024-01-01 00:00:00'' = Some demo_chain0 \<and>
   length (chain demo_chain0) = 1 \<and> previous_hash (chain demo_chain0 ! 0) = ''0'' \<and>
   meets_target 4 (hash (chain demo_chain0 ! 0))"
proof -
  note w = genesis_invariant [OF demo_Blockchain]
  from w have "meets_target 4 (hash (chain demo_chain0 ! 0))" by metis
  with w demo_Blockchain show ?thesis by blast
qed

section \<open>The validation loop\<close>

lemma valid_loop_end: "length ch \<le> i \<Longrightarrow> valid_loop H ch i = (True, [])"
  by (subst valid_loop.simps) simp

lemma valid_loop_pass:
  "i < length ch \<Longrightarrow> block_passes H ch i \<Longrightarrow> valid_loop H ch i = valid_loop H ch (i + 1)"
  by (subst valid_loop.simps) (simp add: block_passes_def)

lemma valid_loop_tampered:
  "i < length ch \<Longrightarrow> hash (ch ! i) \<noteq> calculate_hash H (ch ! i) \<Longrightarrow>
   valid_loop H ch i = (False, [''Block '' @ str_int (int i) @ '' has been tampered!''])"
  by (subst valid_loop.simps) simp

lemma valid_loop_unlinked:
  "i < length ch \<Longrightarrow> hash (ch ! i) = calculate_hash H (ch ! i) \<Longrightarrow>
   previous_hash (ch ! i) \<noteq> hash (ch ! (i - 1)) \<Longrightarrow>
   valid_loop H ch i = (False, [''Block '' @ str_int (int i) @ '' has an invalid previous hash!''])"
  by (subst valid_loop.simps) simp

lemma valid_loop_skip:
  "i \<le> k \<Longrightarrow> k \<le> length ch \<Longrightarrow> \<forall>j. i \<le> j \<and> j < k \<longrightarrow> block_passes H ch j \<Longrightarrow>
   valid_loop H ch i = valid_loop H ch k"
proof (induction "k - i" arbitrary: i)
  case 0
  then show ?case by simp
next
  case (Suc n)
  then have lt: "i < k" by simp
  with Suc.prems have "i < length ch" and "block_passes H ch i" by simp_all
  then have "valid_loop H ch i = valid_loop H ch (i + 1)" by (rule valid_loop_pass)
  also have "\<dots> = valid_loop H ch k"
  proof (rule Suc.hyps(1))
    show "n = k - (i + 1)" using Suc.hyps(2) by simp
    show "i + 1 \<le> k" using lt by simp
    show "k \<le> length ch" by (rule Suc.prems(2))
    show "\<forall>j. i + 1 \<le> j \<and> j < k \<longrightarrow> block_passes H ch j" using Suc.prems(3) by simp
  qed
  finally show ?case .
qed

lemma valid_loop_all:
  assumes "\<forall>j. i \<le> j \<and> j < length ch \<longrightarrow> block_passes H ch j"
  shows "valid_loop H ch i = (True, [])"
proof (cases "i \<le> length ch")
  case True
  from valid_loop_skip [OF True le_refl assms] show ?thesis by (simp add: valid_loop_end)
next
  case False
  then show ?thesis by (simp add: valid_loop_end)
qed

lemma valid_loop_True:
  "fst (valid_loop H ch i) \<Longrightarrow> i \<le> j \<Longrightarrow> j < length ch \<Longrightarrow> block_passes H ch j"
proof (induction H ch i rule: valid_loop.induct)
  case (1 H ch i)
  from "1.prems" have i: "i < length ch" by simp
  show ?case
  proof (cases "block_passes H ch i")
    case False
    with i have "\<not> fst (valid_loop H ch i)"
      by (subst valid_loop.simps) (auto simp: block_passes_def)
    with "1.prems" show ?thesis by simp
  next
    case True
    show ?thesis
    proof (cases "j = i")
      case True
      with \<open>block_passes H ch i\<close> show ?thesis by simp
    next
      case False
      with "1.prems" have j: "i + 1 \<le> j" by simp
      from True i "1.prems"(1) have "fst (valid_loop H ch (i + 1))"
        by (simp add: valid_loop_pass)
      with True i j "1.prems"(3) show ?thesis
        by (intro "1.IH") (simp_all add: block_passes_def)
    qed
  qed
qed

lemma valid_loop_genesis:
  assumes g: "hash g = hash (ch ! 0)" and i: "1 \<le> i"
  shows "valid_loop H (ch[0 := g]) i = valid_loop H ch i"
  using i
proof (induction "length ch - i" arbitrary: i)
  case 0
  then show ?case by (simp add: valid_loop_end)
next
  case (Suc n)
  then have lt: "i < length ch" by simp
  from Suc.prems have cur: "ch[0 := g] ! i = ch ! i" by simp
  have prev: "hash (ch[0 := g] ! (i - 1)) = hash (ch ! (i - 1))"
  proof (cases "i = 1")
    case True
    from lt have "0 < length ch" by (cases ch) simp_all
    then have "ch[0 := g] ! 0 = g" by simp
    with True g show ?thesis by simp
  next
    case False
    with Suc.prems show ?thesis by simp
  qed
  have next_eq: "valid_loop H (ch[0 := g]) (i + 1) = valid_loop H ch (i + 1)"
    by (rule Suc.hyps(1)) (use Suc.hyps(2) in simp_all)
  from prev have prev': "hash (ch[0 := g] ! (i - Suc 0)) = hash (ch ! (i - Suc 0))" by simp
  from next_eq have next_eq': "valid_loop H (ch[0 := g]) (Suc i) = valid_loop H ch (Suc i)" by simp
  show ?case
    by (subst valid_loop.simps, subst (2) valid_loop.simps) (simp add: cur prev' next_eq' lt)
qed

section \<open>Mining and the invariant of the chain\<close>

lemma mine_block_empty:
  "pending_transactions self = [] \<Longrightarrow>
   mine_block H ts self = Some (Inr (False, self, [''No transactions to mine.'']))"
  by (simp add: mine_block_def)

lemma mine_block_no_chain:
  "pending_transactions self \<noteq> [] \<Longrightarrow> chain self = [] \<Longrightarrow>
   mine_block H ts self = Some (Inl IndexError)"
  by (simp add: mine_block_def get_latest_block_def)

lemma mine_block_search:
  "pending_transactions self \<noteq> [] \<Longrightarrow> chain self \<noteq> [] \<Longrightarrow>
   mine_block H ts self =
     (case proof_of_work H self (candidate H ts self) of
        None \<Rightarrow> None
      | Some (block, h) \<Rightarrow>
          Some (Inr (True,
            self\<lparr>chain := chain self @ [block\<lparr>hash := h\<rparr>], pending_transactions := []\<rparr>,
            [''Block '' @ str_int (index block) @ '' successfully mined!''])))"
  by (simp add: mine_block_def get_latest_block_def candidate_def)

text \<open>What a returning \<^verbatim>\<open>mine_block\<close> call on a non-empty buffer has done.\<close>

lemma mine_block_result:
  assumes ret: "mine_block H ts self = Some (Inr (ok, self', out))"
    and pending: "pending_transactions self \<noteq> []"
  shows "ok \<and> chain self \<noteq> [] \<and>
         (\<exists>k. self' = self\<lparr>chain := chain self @
                   [(candidate H ts self)\<lparr>nonce := int k,
                      hash := digest_at H (candidate H ts self) (int k)\<rparr>],
                 pending_transactions := []\<rparr> \<and>
              meets_target (difficulty self) (digest_at H (candidate H ts self) (int k))) \<and>
         out = [''Block '' @ str_int (int (length (chain self))) @ '' successfully mined!'']"
proof -
  from ret pending have ne: "chain self \<noteq> []"
    by (auto simp: mine_block_no_chain)
  let ?c = "candidate H ts self"
  from ret have "\<exists>b h. proof_of_work H self ?c = Some (b, h)"
    by (cases "proof_of_work H self ?c") (auto simp: mine_block_search [OF pending ne])
  then obtain b h where pow: "proof_of_work H self ?c = Some (b, h)" by blast
  from proof_of_work_result [OF pow] obtain k where
    b: "b = ?c\<lparr>nonce := int k\<rparr>" and h: "h = digest_at H ?c (int k)"
    and m: "meets_target (difficulty self) h" by blast
  from ret pow have ok: "ok"
    and self': "self' = self\<lparr>chain := chain self @ [b\<lparr>hash := h\<rparr>], pending_transactions := []\<rparr>"
    and out: "out = [''Block '' @ str_int (index b) @ '' successfully mined!'']"
    by (simp_all add: mine_block_search [OF pending ne])
  from b have "index b = int (length (chain self))" by (simp add: candidate_def Block_def)
  with ok ne self' out b h m show ?thesis by auto
qed

lemma candidate_fields:
  "index (candidate H ts self) = int (length (chain self))"
  "transactions (candidate H ts self) = pending_transactions self"
  "timestamp (candidate H ts self) = ts"
  "previous_hash (candidate H ts self) = hash (last (chain self))"
  by (simp_all add: candidate_def Block_def)

lemma sealed_hash:
  "calculate_hash H (b\<lparr>nonce := n, hash := digest_at H b n\<rparr>) = digest_at H b n"
  by (simp add: calculate_hash_def digest_at_def block_dict_of_def)

lemma add_transaction_inv:
  assumes "chain_inv H bc"
  shows "chain_inv H (fst (snd (add_transaction bc s r a)))"
  using assms by (auto simp: chain_inv_def add_transaction_def tx_invariant_def)

lemma mine_block_inv:
  assumes inv: "chain_inv H bc" and ret: "mine_block H ts bc = Some (Inr (ok, bc', out))"
  shows "chain_inv H bc'"
proof (cases "pending_transactions bc = []")
  case True
  with ret have "bc' = bc" by (simp add: mine_block_empty)
  with inv show ?thesis by simp
next
  case False
  let ?c = "candidate H ts bc"
  from mine_block_result [OF ret False] obtain k where
    bc': "bc' = bc\<lparr>chain := chain bc @ [?c\<lparr>nonce := int k, hash := digest_at H ?c (int k)\<rparr>],
                  pending_transactions := []\<rparr>"
    by blast
  let ?b = "?c\<lparr>nonce := int k, hash := digest_at H ?c (int k)\<rparr>"
  let ?ch = "chain bc"
  from inv have ne: "?ch \<noteq> []"
    and passes: "\<forall>j. 1 \<le> j \<and> j < length ?ch \<longrightarrow> block_passes H ?ch j"
    and gen: "transactions (?ch ! 0) = [genesis_transaction]"
    and pend: "\<forall>t \<in> set (pending_transactions bc). tx_invariant t"
    and txs: "\<forall>j. 1 \<le> j \<and> j < length ?ch \<longrightarrow> (\<forall>t \<in> set (transactions (?ch ! j)). tx_invariant t)"
    by (simp_all add: chain_inv_def)
  have new_passes: "block_passes H (?ch @ [?b]) (length ?ch)"
    using ne by (simp add: block_passes_def sealed_hash nth_append candidate_fields last_conv_nth)
  have old_passes: "block_passes H (?ch @ [?b]) j" if "1 \<le> j" "j < length ?ch" for j
  proof -
    from that have "j - 1 < length ?ch" by simp
    moreover from that passes have "block_passes H ?ch j" by simp
    ultimately show ?thesis using that by (simp add: block_passes_def nth_append)
  qed
  have 1: "\<forall>j. 1 \<le> j \<and> j < length (?ch @ [?b]) \<longrightarrow> block_passes H (?ch @ [?b]) j"
  proof (intro allI impI)
    fix j assume j: "1 \<le> j \<and> j < length (?ch @ [?b])"
    show "block_passes H (?ch @ [?b]) j"
    proof (cases "j = length ?ch")
      case True
      with new_passes show ?thesis by simp
    next
      case False
      with j have "j < length ?ch" by simp
      with j show ?thesis by (simp add: old_passes)
    qed
  qed
  have 2: "transactions ((?ch @ [?b]) ! 0) = [genesis_transaction]"
    using ne gen by (simp add: nth_append)
  have 3: "\<forall>j. 1 \<le> j \<and> j < length (?ch @ [?b]) \<longrightarrow>
             (\<forall>t \<in> set (transactions ((?ch @ [?b]) ! j)). tx_invariant t)"
  proof (intro allI impI)
    fix j assume j: "1 \<le> j \<and> j < length (?ch @ [?b])"
    show "\<forall>t \<in> set (transactions ((?ch @ [?b]) ! j)). tx_invariant t"
    proof (cases "j = length ?ch")
      case True
      with pend show ?thesis by (simp add: candidate_fields)
    next
      case False
      with j have "j < length ?ch" by simp
      with j txs show ?thesis by (simp add: nth_append)
    qed
  qed
  from 1 2 3 show ?thesis unfolding chain_inv_def bc' by simp
qed

lemma run_inv:
  "chain_inv H bc \<Longrightarrow> run H bc cs = Some (Inr bc') \<Longrightarrow> chain_inv H bc'"
proof (induction H bc cs rule: run.induct)
  case (1 H self)
  then show ?case by simp
next
  case (2 H self s r a cs)
  from "2.prems"(1) have "chain_inv H (fst (snd (add_transaction self s r a)))"
    by (rule add_transaction_inv)
  with "2.prems"(2) show ?case by (intro "2.IH") simp_all
next
  case (3 H self ts cs)
  from "3.prems"(2) obtain ok self' out where
    m: "mine_block H ts self = Some (Inr (ok, self', out))" and r: "run H self' cs = Some (Inr bc')"
    by (auto split: option.splits sum.splits)
  from "3.prems"(1) m have "chain_inv H self'" by (rule mine_block_inv)
  with m r show ?case by (intro "3.IH") auto
qed

lemma Blockchain_inv:
  assumes "Blockchain H ts = Some bc"
  shows "chain_inv H bc"
proof -
  from Blockchain_result [OF assms] obtain g h where
    pow: "proof_of_work H \<lparr>chain = [], difficulty = 4, pending_transactions = []\<rparr>
            (Block H 0 [genesis_transaction] ts ''0'' 0) = Some (g, h)"
    and bc: "bc = \<lparr>chain = [g\<lparr>hash := h\<rparr>], difficulty = 4, pending_transactions = []\<rparr>"
    by blast
  from proof_of_work_result [OF pow] obtain k where
    "g = (Block H 0 [genesis_transaction] ts ''0'' 0)\<lparr>nonce := int k\<rparr>" by blast
  with bc show ?thesis by (simp add: chain_inv_def Block_def)
qed

lemma built_chain_inv:
  "Blockchain H ts0 = Some bc0 \<Longrightarrow> run H bc0 cs = Some (Inr bc) \<Longrightarrow> chain_inv H bc"
  by (blast intro: run_inv Blockchain_inv)

section \<open>Claims about mining and validation\<close>

text \<open>
  C4. On an empty buffer \<^verbatim>\<open>mine_block\<close> returns \<open>False\<close> and leaves the object as it was.
  On a non-empty buffer there are three outcomes. If it returns, it returns \<open>True\<close>, the
  chain is the old chain followed by exactly one new block, whose transactions are the
  old buffer in the same order and whose stored hash is its digest and meets the target,
  and the buffer is empty. If the chain is empty it raises before any assignment. If no
  non-negative nonce meets the target the search never ends, again before any assignment.
  The search does return whenever some non-negative nonce meets the target.
\<close>

theorem mine_block_atomic:
  "(pending_transactions self = [] \<longrightarrow>
      mine_block H ts self = Some (Inr (False, self, [''No transactions to mine.'']))) \<and>
   (pending_transactions self \<noteq> [] \<longrightarrow>
      (case mine_block H ts self of
         None \<Rightarrow>
           chain self \<noteq> [] \<and>
           (\<forall>n \<ge> 0. \<not> meets_target (difficulty self) (digest_at H (candidate H ts self) n))
       | Some (Inl e) \<Rightarrow> e = IndexError \<and> chain self = []
       | Some (Inr (ok, self', out)) \<Rightarrow>
           ok \<and> chain self \<noteq> [] \<and>
           (\<exists>b. chain self' = chain self @ [b] \<and>
                transactions b = pending_transactions self \<and>
                index b = int (length (chain self)) \<and> timestamp b = ts \<and>
                previous_hash b = hash (last (chain self)) \<and>
                hash b = calculate_hash H b \<and> meets_target (difficulty self) (hash b)) \<and>
           pending_transactions self' = [] \<and> difficulty self' = difficulty self \<and>
           out = [''Block '' @ str_int (int (length (chain self))) @ '' successfully mined!''])) \<and>
   (pending_transactions self \<noteq> [] \<and> chain self \<noteq> [] \<and> 0 \<le> n \<and>
    meets_target (difficulty self) (digest_at H (candidate H ts self) n) \<longrightarrow>
      (\<exists>self' out. mine_block H ts self = Some (Inr (True, self', out))))"
proof (intro conjI impI)
  assume "pending_transactions self = []"
  then show "mine_block H ts self = Some (Inr (False, self, [''No transactions to mine.'']))"
    by (rule mine_block_empty)
next
  assume pending: "pending_transactions self \<noteq> []"
  let ?c = "candidate H ts self"
  show "case mine_block H ts self of
         None \<Rightarrow>
           chain self \<noteq> [] \<and>
           (\<forall>n \<ge> 0. \<not> meets_target (difficulty self) (digest_at H ?c n))
       | Some (Inl e) \<Rightarrow> e = IndexError \<and> chain self = []
       | Some (Inr (ok, self', out)) \<Rightarrow>
           ok \<and> chain self \<noteq> [] \<and>
           (\<exists>b. chain self' = chain self @ [b] \<and>
                transactions b = pending_transactions self \<and>
                index b = int (length (chain self)) \<and> timestamp b = ts \<and>
                previous_hash b = hash (last (chain self)) \<and>
                hash b = calculate_hash H b \<and> meets_target (difficulty self) (hash b)) \<and>
           pending_transactions self' = [] \<and> difficulty self' = difficulty self \<and>
           out = [''Block '' @ str_int (int (length (chain self))) @ '' successfully mined!'']"
  proof (cases "mine_block H ts self")
    case None
    with pending have ne: "chain self \<noteq> []"
      by (auto simp: mine_block_no_chain)
    from None have pow: "proof_of_work H self ?c = None"
      by (cases "proof_of_work H self ?c") (auto simp: mine_block_search [OF pending ne])
    have "\<not> meets_target (difficulty self) (digest_at H ?c n)" if "0 \<le> n" for n
    proof
      assume "meets_target (difficulty self) (digest_at H ?c n)"
      from proof_of_work_returns [OF that this] pow show False by simp
    qed
    with None ne show ?thesis by simp
  next
    case (Some res)
    show ?thesis
    proof (cases res)
      case (Inl e)
      have "chain self = []"
      proof (rule ccontr)
        assume ne: "chain self \<noteq> []"
        from Some Inl show False
          by (cases "proof_of_work H self ?c") (auto simp: mine_block_search [OF pending ne])
      qed
      moreover have "e = IndexError" by (cases e) simp
      ultimately show ?thesis using Some Inl by simp
    next
      case (Inr t)
      obtain ok self' out where t: "t = (ok, self', out)" by (cases t) auto
      from Some Inr t have ret: "mine_block H ts self = Some (Inr (ok, self', out))" by simp
      from mine_block_result [OF ret pending] obtain k where
        ok: "ok" and ne: "chain self \<noteq> []"
        and self': "self' = self\<lparr>chain := chain self @
               [?c\<lparr>nonce := int k, hash := digest_at H ?c (int k)\<rparr>], pending_transactions := []\<rparr>"
        and m: "meets_target (difficulty self) (digest_at H ?c (int k))"
        and out: "out = [''Block '' @ str_int (int (length (chain self))) @ '' successfully mined!'']"
        by blast
      let ?b = "?c\<lparr>nonce := int k, hash := digest_at H ?c (int k)\<rparr>"
      have "chain self' = chain self @ [?b] \<and>
            transactions ?b = pending_transactions self \<and>
            index ?b = int (length (chain self)) \<and> timestamp ?b = ts \<and>
            previous_hash ?b = hash (last (chain self)) \<and>
            hash ?b = calculate_hash H ?b \<and> meets_target (difficulty self) (hash ?b)"
        using self' m by (simp add: candidate_fields sealed_hash)
      then have "\<exists>b. chain self' = chain self @ [b] \<and>
            transactions b = pending_transactions self \<and>
            index b = int (length (chain self)) \<and> timestamp b = ts \<and>
            previous_hash b = hash (last (chain self)) \<and>
            hash b = calculate_hash H b \<and> meets_target (difficulty self) (hash b)"
        by (rule exI)
      with ok ne out self' show ?thesis unfolding ret by simp
    qed
  qed
next
  assume a: "pending_transactions self \<noteq> [] \<and> chain self \<noteq> [] \<and> 0 \<le> n \<and>
    meets_target (difficulty self) (digest_at H (candidate H ts self) n)"
  then obtain r where "proof_of_work H self (candidate H ts self) = Some r"
    using proof_of_work_returns by blast
  with a show "\<exists>self' out. mine_block H ts self = Some (Inr (True, self', out))"
    by (cases r) (simp add: mine_block_search)
qed

lemma demo_mine_block:
  "mine_block demo_digest ''2024-01-01 00:00:01'' demo_chain0_pending =
     Some (Inr (True, demo_chain1, [''Block 1 successfully mined!'']))"
  by (simp add: demo_chain0_pending_def demo_chain0_def demo_chain1_def demo_genesis_def
      demo_block1_def mine_block_def get_latest_block_def demo_proof_of_work Block_def
      calculate_hash_def block_dict_of_def demo_digest_block1 str_int_1)

theorem mine_block_atomic_witness:
  "pending_transactions demo_chain0 = [] \<and>
   mine_block demo_digest ''2024-01-01 00:00:01'' demo_chain0 =
     Some (Inr (False, demo_chain0, [''No transactions to mine.''])) \<and>
   pending_transactions demo_chain0_pending \<noteq> [] \<and>
   mine_block demo_digest ''2024-01-01 00:00:01'' demo_chain0_pending =
     Some (Inr (True, demo_chain1, [''Block 1 successfully mined!''])) \<and>
   chain demo_chain1 = chain demo_chain0_pending @ [demo_block1] \<and>
   transactions demo_block1 = pending_transactions demo_chain0_pending \<and>
   pending_transactions demo_chain1 = []"
proof -
  have e: "pending_transactions demo_chain0 = []" by (simp add: demo_chain0_def)
  from mine_block_atomic [of demo_chain0 demo_digest "''2024-01-01 00:00:01''"] e
  have "mine_block demo_digest ''2024-01-01 00:00:01'' demo_chain0 =
     Some (Inr (False, demo_chain0, [''No transactions to mine.'']))" by blast
  with e demo_mine_block show ?thesis
    by (simp add: demo_chain0_pending_def demo_chain0_def demo_chain1_def demo_block1_def)
qed

text \<open>
  C3. In every state reached from a freshly constructed chain by \<^verbatim>\<open>add_transaction\<close> and
  \<^verbatim>\<open>mine_block\<close> calls, \<^verbatim>\<open>is_chain_valid\<close> returns \<open>True\<close> and prints nothing; every block
  from index 1 on stores the hash of its predecessor as previous hash and its own digest
  as hash.
\<close>

theorem built_chain_valid:
  assumes "Blockchain H ts0 = Some bc0" and "run H bc0 cs = Some (Inr bc)"
  shows "is_chain_valid H bc = (True, []) \<and>
         (\<forall>i. 1 \<le> i \<and> i < length (chain bc) \<longrightarrow>
              previous_hash (chain bc ! i) = hash (chain bc ! (i - 1)) \<and>
              hash (chain bc ! i) = calculate_hash H (chain bc ! i))"
proof -
  from built_chain_inv [OF assms]
  have p: "\<forall>j. 1 \<le> j \<and> j < length (chain bc) \<longrightarrow> block_passes H (chain bc) j"
    by (simp add: chain_inv_def)
  then have "is_chain_valid H bc = (True, [])"
    unfolding is_chain_valid_def by (intro valid_loop_all) simp
  with p show ?thesis by (simp add: block_passes_def)
qed

lemma demo_valid: "is_chain_valid demo_digest demo_chain2 = (True, [])"
  by code_simp

theorem built_chain_valid_witness:
  "Blockchain demo_digest ''2024-01-01 00:00:00'' = Some demo_chain0 \<and>
   run demo_digest demo_chain0 demo_calls = Some (Inr demo_chain2) \<and>
   is_chain_valid demo_digest demo_chain2 = (True, []) \<and>
   previous_hash (chain demo_chain2 ! 2) = hash (chain demo_chain2 ! 1) \<and>
   hash (chain demo_chain2 ! 2) = calculate_hash demo_digest (chain demo_chain2 ! 2)"
proof -
  note w = built_chain_valid [OF demo_Blockchain demo_run]
  from w have v: "is_chain_valid demo_digest demo_chain2 = (True, [])" by blast
  have "(1::nat) \<le> 2 \<and> 2 < length (chain demo_chain2)" by (simp add: demo_chain2_def)
  with w have "previous_hash (chain demo_chain2 ! 2) = hash (chain demo_chain2 ! (2 - 1)) \<and>
     hash (chain demo_chain2 ! 2) = calculate_hash demo_digest (chain demo_chain2 ! 2)" by blast
  with v demo_Blockchain demo_run show ?thesis by simp
qed

section \<open>Claims about the validation scan\<close>

text \<open>
  C6. \<^verbatim>\<open>is_chain_valid\<close> starts at index 1 and goes up. At the first index \<open>i\<close> whose block
  does not pass, it returns \<open>False\<close> at once: with the tamper message for \<open>i\<close> when the
  stored hash differs from the recomputed digest (whatever the linkage), and with the
  previous-hash message for \<open>i\<close> when the hash matches and the linkage does not. The blocks
  after \<open>i\<close> are not read: the result is that of the chain cut after block \<open>i\<close>. When all
  blocks from 1 on pass it returns \<open>True\<close>. Block 0 is never checked: replacing it by any
  block with the same stored hash leaves the result unchanged.
\<close>

theorem is_chain_valid_scan:
  assumes "1 \<le> i" and "\<forall>j. 1 \<le> j \<and> j < i \<longrightarrow> block_passes H (chain self) j"
  shows "(i < length (chain self) \<and> hash (chain self ! i) \<noteq> calculate_hash H (chain self ! i) \<longrightarrow>
            is_chain_valid H self =
              (False, [''Block '' @ str_int (int i) @ '' has been tampered!''])) \<and>
         (i < length (chain self) \<and> hash (chain self ! i) = calculate_hash H (chain self ! i) \<and>
          previous_hash (chain self ! i) \<noteq> hash (chain self ! (i - 1)) \<longrightarrow>
            is_chain_valid H self =
              (False, [''Block '' @ str_int (int i) @ '' has an invalid previous hash!''])) \<and>
         (i < length (chain self) \<and> \<not> block_passes H (chain self) i \<longrightarrow>
            is_chain_valid H self = is_chain_valid H (self\<lparr>chain := take (Suc i) (chain self)\<rparr>)) \<and>
         (length (chain self) \<le> i \<longrightarrow> is_chain_valid H self = (True, [])) \<and>
         (hash g = hash (chain self ! 0) \<longrightarrow>
            is_chain_valid H (self\<lparr>chain := (chain self)[0 := g]\<rparr>) = is_chain_valid H self)"
proof (intro conjI impI)
  let ?ch = "chain self"
  have start: "is_chain_valid H self = valid_loop H ?ch 1"
    by (simp only: is_chain_valid_def)
  have skip: "valid_loop H ?ch 1 = valid_loop H ?ch i" if "i \<le> length ?ch"
    using assms that by (intro valid_loop_skip) simp_all
  {
    assume a: "i < length ?ch \<and> hash (?ch ! i) \<noteq> calculate_hash H (?ch ! i)"
    then have "i \<le> length ?ch" by simp
    then have "is_chain_valid H self = valid_loop H ?ch i" by (simp only: start skip)
    also from a have "\<dots> = (False, [''Block '' @ str_int (int i) @ '' has been tampered!''])"
      by (intro valid_loop_tampered) simp_all
    finally show "is_chain_valid H self =
        (False, [''Block '' @ str_int (int i) @ '' has been tampered!''])" .
  }
  {
    assume a: "i < length ?ch \<and> hash (?ch ! i) = calculate_hash H (?ch ! i) \<and>
      previous_hash (?ch ! i) \<noteq> hash (?ch ! (i - 1))"
    then have "i \<le> length ?ch" by simp
    then have "is_chain_valid H self = valid_loop H ?ch i" by (simp only: start skip)
    also from a have "\<dots> =
        (False, [''Block '' @ str_int (int i) @ '' has an invalid previous hash!''])"
      by (intro valid_loop_unlinked) simp_all
    finally show "is_chain_valid H self =
        (False, [''Block '' @ str_int (int i) @ '' has an invalid previous hash!''])" .
  }
  {
    assume a: "i < length ?ch \<and> \<not> block_passes H ?ch i"
    let ?cut = "take (Suc i) ?ch"
    from a have len: "i < length ?cut" by simp
    from a have le: "i \<le> length ?ch" by simp
    have nth: "?cut ! j = ?ch ! j" if "j \<le> i" for j using that by simp
    have "block_passes H ?cut j" if "1 \<le> j \<and> j < i" for j
    proof -
      from that assms(2) have "block_passes H ?ch j" by blast
      moreover from that have "j \<le> i" "j - 1 \<le> i" by linarith+
      ultimately show ?thesis by (simp only: block_passes_def nth)
    qed
    then have cut_skip: "valid_loop H ?cut 1 = valid_loop H ?cut i"
      using assms(1) len by (intro valid_loop_skip) simp_all
    have c: "?cut ! i = ?ch ! i" and p: "?cut ! (i - 1) = ?ch ! (i - 1)"
      by (simp_all add: nth)
    have same: "valid_loop H ?cut i = valid_loop H ?ch i"
    proof (cases "hash (?ch ! i) = calculate_hash H (?ch ! i)")
      case False
      from a False have "valid_loop H ?ch i =
          (False, [''Block '' @ str_int (int i) @ '' has been tampered!''])"
        by (intro valid_loop_tampered) simp_all
      moreover from False have "hash (?cut ! i) \<noteq> calculate_hash H (?cut ! i)"
        by (simp add: c)
      with len have "valid_loop H ?cut i =
          (False, [''Block '' @ str_int (int i) @ '' has been tampered!''])"
        by (rule valid_loop_tampered)
      ultimately show ?thesis by simp
    next
      case True
      with a have link: "previous_hash (?ch ! i) \<noteq> hash (?ch ! (i - 1))"
        by (simp add: block_passes_def)
      from a have "i < length ?ch" by simp
      from this True link have "valid_loop H ?ch i =
          (False, [''Block '' @ str_int (int i) @ '' has an invalid previous hash!''])"
        by (rule valid_loop_unlinked)
      moreover from True have t: "hash (?cut ! i) = calculate_hash H (?cut ! i)"
        by (simp add: c)
      from link have l: "previous_hash (?cut ! i) \<noteq> hash (?cut ! (i - 1))"
        using c p by simp
      from len t l have "valid_loop H ?cut i =
          (False, [''Block '' @ str_int (int i) @ '' has an invalid previous hash!''])"
        by (rule valid_loop_unlinked)
      ultimately show ?thesis by simp
    qed
    have "is_chain_valid H self = valid_loop H ?ch i" using le by (simp only: start skip)
    also have "\<dots> = valid_loop H ?cut 1" by (simp only: cut_skip same)
    also have "\<dots> = is_chain_valid H (self\<lparr>chain := ?cut\<rparr>)"
      by (simp add: is_chain_valid_def)
    finally show "is_chain_valid H self = is_chain_valid H (self\<lparr>chain := ?cut\<rparr>)" .
  }
  {
    assume a: "length ?ch \<le> i"
    have "\<forall>j. 1 \<le> j \<and> j < length ?ch \<longrightarrow> block_passes H ?ch j"
      using assms(2) a by simp
    then have "valid_loop H ?ch 1 = (True, [])" by (rule valid_loop_all)
    then show "is_chain_valid H self = (True, [])" by (simp only: start)
  }
  {
    assume "hash g = hash (?ch ! 0)"
    then have "valid_loop H (?ch[0 := g]) 1 = valid_loop H ?ch 1"
      by (intro valid_loop_genesis) simp_all
    then show "is_chain_valid H (self\<lparr>chain := ?ch[0 := g]\<rparr>) = is_chain_valid H self"
      by (simp add: is_chain_valid_def)
  }
qed

lemma demo_block1_tampered_fails:
  "hash demo_block1_tampered \<noteq> calculate_hash demo_digest demo_block1_tampered"
  by code_simp

theorem is_chain_valid_scan_witness:
  "hash (chain demo_chain2_broken ! 1) \<noteq> calculate_hash demo_digest (chain demo_chain2_broken ! 1) \<and>
   is_chain_valid demo_digest demo_chain2_broken = (False, [''Block 1 has been tampered!'']) \<and>
   is_chain_valid demo_digest (demo_chain2_broken\<lparr>chain := take 2 (chain demo_chain2_broken)\<rparr>) =
     (False, [''Block 1 has been tampered!''])"
proof -
  have i: "(1::nat) \<le> 1" by simp
  have pre: "\<forall>j. 1 \<le> j \<and> j < (1::nat) \<longrightarrow> block_passes demo_digest (chain demo_chain2_broken) j"
    by simp
  have len: "1 < length (chain demo_chain2_broken)" by (simp add: demo_chain2_broken_def)
  have bad: "hash (chain demo_chain2_broken ! 1) \<noteq>
      calculate_hash demo_digest (chain demo_chain2_broken ! 1)"
    using demo_block1_tampered_fails by (simp add: demo_chain2_broken_def)
  then have np: "\<not> block_passes demo_digest (chain demo_chain2_broken) 1"
    by (simp add: block_passes_def)
  note w = is_chain_valid_scan [OF i pre, where g = demo_genesis]
  note w1 = w [THEN conjunct1, rule_format, OF conjI, OF len bad]
  note w3 = w [THEN conjunct2, THEN conjunct2, THEN conjunct1, rule_format, OF conjI, OF len np]
  from w1 have r1: "is_chain_valid demo_digest demo_chain2_broken =
      (False, [''Block 1 has been tampered!''])" by (simp add: str_int_1)
  from w3 have "is_chain_valid demo_digest demo_chain2_broken =
      is_chain_valid demo_digest (demo_chain2_broken\<lparr>chain := take 2 (chain demo_chain2_broken)\<rparr>)"
    by (simp only: numeral_2_eq_2 One_nat_def)
  with r1 have r2: "is_chain_valid demo_digest
      (demo_chain2_broken\<lparr>chain := take 2 (chain demo_chain2_broken)\<rparr>) =
      (False, [''Block 1 has been tampered!''])" by simp
  from bad r1 r2 show ?thesis by simp
qed

text \<open>
  C10. On every chain built from a fresh chain by \<^verbatim>\<open>add_transaction\<close> and \<^verbatim>\<open>mine_block\<close>
  calls, overwriting the index, the transactions, the timestamp and the nonce of block 0
  with any values, its stored hash left as it is, leaves \<^verbatim>\<open>is_chain_valid\<close> returning
  \<open>True\<close>: the loop starts at index 1 and reads of block 0 only the stored hash.
\<close>

theorem genesis_tamper_undetected:
  assumes "Blockchain H ts0 = Some bc0" and "run H bc0 cs = Some (Inr bc)"
  shows "is_chain_valid H
           (bc\<lparr>chain := (chain bc)[0 := (chain bc ! 0)\<lparr>index := i, transactions := txs,
                                        timestamp := ts, nonce := n\<rparr>]\<rparr>) = (True, [])"
proof -
  from built_chain_inv [OF assms]
  have "\<forall>j. 1 \<le> j \<and> j < length (chain bc) \<longrightarrow> block_passes H (chain bc) j"
    by (simp add: chain_inv_def)
  then have "valid_loop H (chain bc) 1 = (True, [])"
    by (intro valid_loop_all) simp
  then show ?thesis
    by (simp add: is_chain_valid_def valid_loop_genesis)
qed

theorem genesis_tamper_undetected_witness:
  "Blockchain demo_digest ''2024-01-01 00:00:00'' = Some demo_chain0 \<and>
   run demo_digest demo_chain0 demo_calls = Some (Inr demo_chain2) \<and>
   block_dict_of demo_genesis_tampered \<noteq> block_dict_of (chain demo_chain2 ! 0) \<and>
   hash demo_genesis_tampered \<noteq> calculate_hash demo_digest demo_genesis_tampered \<and>
   is_chain_valid demo_digest
     (demo_chain2\<lparr>chain := (chain demo_chain2)[0 := demo_genesis_tampered]\<rparr>) = (True, [])"
proof -
  have g: "(chain demo_chain2 ! 0)\<lparr>index := 7,
      transactions := [\<lparr>sender = ''Genesis'', receiver = ''Mallory'', amount = PyInt 50\<rparr>],
      timestamp := ''1970-01-01 00:00:00'', nonce := 9\<rparr> = demo_genesis_tampered"
    by (simp add: demo_chain2_def demo_genesis_tampered_def)
  have d: "block_dict_of demo_genesis_tampered \<noteq> block_dict_of (chain demo_chain2 ! 0)"
    by (simp add: demo_chain2_def demo_genesis_tampered_def demo_genesis_def block_dict_of_def)
  have h: "hash demo_genesis_tampered \<noteq> calculate_hash demo_digest demo_genesis_tampered"
  proof -
    have "startswith (calculate_hash demo_digest demo_genesis_tampered) (zeros 9)"
      by (simp add: demo_target demo_genesis_tampered_def)
    moreover have "\<not> startswith (hash demo_genesis_tampered) (zeros 9)"
      by (simp add: startswith_zeros meets_target_def demo_genesis_tampered_def demo_genesis_def)
    ultimately show ?thesis by auto
  qed
  from genesis_tamper_undetected [OF demo_Blockchain demo_run, where i = 7
      and txs = "[\<lparr>sender = ''Genesis'', receiver = ''Mallory'', amount = PyInt 50\<rparr>]"
      and ts = "''1970-01-01 00:00:00''" and n = 9]
  have "is_chain_valid demo_digest
     (demo_chain2\<lparr>chain := (chain demo_chain2)[0 := demo_genesis_tampered]\<rparr>) = (True, [])"
    unfolding g .
  with demo_Blockchain demo_run d h show ?thesis by simp
qed

section \<open>Claims about tampering, submission and stored transactions\<close>

text \<open>The loop's result when \<open>k\<close> is the first index whose block does not pass.\<close>

lemma valid_loop_first_failure:
  assumes "1 \<le> k" and "k < length ch"
    and "\<forall>j. 1 \<le> j \<and> j < k \<longrightarrow> block_passes H ch j"
    and "\<not> block_passes H ch k"
  shows "valid_loop H ch 1 =
           (if hash (ch ! k) \<noteq> calculate_hash H (ch ! k)
            then (False, [''Block '' @ str_int (int k) @ '' has been tampered!''])
            else (False, [''Block '' @ str_int (int k) @ '' has an invalid previous hash!'']))"
proof -
  from assms(1,2,3) have skip: "valid_loop H ch 1 = valid_loop H ch k"
    by (intro valid_loop_skip) simp_all
  show ?thesis
  proof (cases "hash (ch ! k) = calculate_hash H (ch ! k)")
    case False
    with assms(2) have "valid_loop H ch k =
        (False, [''Block '' @ str_int (int k) @ '' has been tampered!''])"
      by (intro valid_loop_tampered) simp_all
    with skip False show ?thesis by simp
  next
    case True
    with assms(4) have "previous_hash (ch ! k) \<noteq> hash (ch ! (k - 1))"
      by (simp add: block_passes_def)
    with assms(2) True have "valid_loop H ch k =
        (False, [''Block '' @ str_int (int k) @ '' has an invalid previous hash!''])"
      by (intro valid_loop_unlinked) simp_all
    with skip True show ?thesis by simp
  qed
qed

text \<open>Overwriting block \<open>i\<close> leaves the outcome of both checks at every earlier index as it was.\<close>

lemma block_passes_before_update:
  assumes "1 \<le> j" and "j < i"
  shows "block_passes H (ch[i := b']) j = block_passes H ch j"
proof -
  from assms have "j \<noteq> i" and "j - 1 \<noteq> i" by linarith+
  then have "ch[i := b'] ! j = ch ! j" and "ch[i := b'] ! (j - 1) = ch ! (j - 1)"
    by simp_all
  then show ?thesis by (simp only: block_passes_def)
qed

text \<open>
  Overwriting an integer amount by the float of the same value changes the content: the
  two are different dictionaries for the digest, as they are different texts for
  \<^verbatim>\<open>json.dumps\<close>.
\<close>

lemma int_float_amounts_differ:
  "block_dict_of (b\<lparr>transactions := [t\<lparr>amount := PyInt 100\<rparr>]\<rparr>) \<noteq>
   block_dict_of (b\<lparr>transactions := [t\<lparr>amount := PyFloat 100\<rparr>]\<rparr>)"
proof
  assume "block_dict_of (b\<lparr>transactions := [t\<lparr>amount := PyInt 100\<rparr>]\<rparr>) =
    block_dict_of (b\<lparr>transactions := [t\<lparr>amount := PyFloat 100\<rparr>]\<rparr>)"
  then have "t\<lparr>amount := PyInt 100\<rparr> = t\<lparr>amount := PyFloat 100\<rparr>"
    by (simp add: block_dict_of_def)
  then have "amount (t\<lparr>amount := PyInt 100\<rparr>) = amount (t\<lparr>amount := PyFloat 100\<rparr>)"
    by (rule arg_cong)
  then show False by simp
qed

text \<open>
  A digest with finitely many values (SHA-256 has at most \<open>2^256\<close>) takes the same value at
  two different nonces of any block content.
\<close>

lemma digest_collision_exists:
  fixes H :: digest_fn
  assumes "finite (range H)"
  shows "\<exists>n m. n \<noteq> m \<and> H (i, txs, ts, ph, n) = H (i, txs, ts, ph, m)"
proof (rule ccontr)
  assume no: "\<not> (\<exists>n m. n \<noteq> m \<and> H (i, txs, ts, ph, n) = H (i, txs, ts, ph, m))"
  let ?f = "\<lambda>n :: int. H (i, txs, ts, ph, n)"
  from no have "inj ?f" by (auto simp: inj_on_def)
  moreover have "range ?f \<subseteq> range H" by auto
  with assms have "finite (range ?f)" by (rule finite_subset [rotated])
  ultimately have "finite (UNIV :: int set)" by (rule finite_imageD [rotated])
  then show False by (simp add: infinite_UNIV_int)
qed

text \<open>
  Hence for every such digest there is a chain whose block 1 is sealed and passes, and an
  overwriting of its nonce, stored hash left alone, after which \<^verbatim>\<open>is_chain_valid\<close> still
  returns \<open>True\<close>.
\<close>

lemma collision_undetected:
  fixes H :: digest_fn
  assumes "finite (range H)"
  shows "\<exists>self i b'. 1 \<le> i \<and> i < length (chain self) \<and>
           (\<forall>j. 1 \<le> j \<and> j < i \<longrightarrow> block_passes H (chain self) j) \<and>
           hash (chain self ! i) = calculate_hash H (chain self ! i) \<and>
           hash b' = hash (chain self ! i) \<and>
           block_dict_of b' \<noteq> block_dict_of (chain self ! i) \<and>
           is_chain_valid H (self\<lparr>chain := (chain self)[i := b']\<rparr>) = (True, [])"
proof -
  from digest_collision_exists [OF assms, of 1 "[]" "[]" "[]"]
  obtain n m where nm: "n \<noteq> m" and coll: "H (1, [], [], [], n) = H (1, [], [], [], m)"
    by blast
  let ?g = "\<lparr>index = 0, transactions = [], timestamp = [], previous_hash = [], nonce = 0,
             hash = []\<rparr>"
  let ?b = "\<lparr>index = 1, transactions = [], timestamp = [], previous_hash = [], nonce = n,
             hash = H (1, [], [], [], n)\<rparr>"
  let ?b' = "?b\<lparr>nonce := m\<rparr>"
  let ?self = "\<lparr>chain = [?g, ?b], difficulty = 4, pending_transactions = []\<rparr>"
  have "\<forall>j. 1 \<le> j \<and> j < length [?g, ?b'] \<longrightarrow> block_passes H [?g, ?b'] j"
  proof (intro allI impI)
    fix j :: nat assume "1 \<le> j \<and> j < length [?g, ?b']"
    then have "j = 1" by simp
    with coll show "block_passes H [?g, ?b'] j"
      by (simp add: block_passes_def calculate_hash_def block_dict_of_def)
  qed
  then have "valid_loop H [?g, ?b'] 1 = (True, [])" by (rule valid_loop_all)
  then have v: "is_chain_valid H (?self\<lparr>chain := (chain ?self)[1 := ?b']\<rparr>) = (True, [])"
    by (simp add: is_chain_valid_def)
  have "(1::nat) \<le> 1 \<and> 1 < length (chain ?self) \<and>
        (\<forall>j. 1 \<le> j \<and> j < (1::nat) \<longrightarrow> block_passes H (chain ?self) j) \<and>
        hash (chain ?self ! 1) = calculate_hash H (chain ?self ! 1) \<and>
        hash ?b' = hash (chain ?self ! 1) \<and>
        block_dict_of ?b' \<noteq> block_dict_of (chain ?self ! 1)"
    using nm by (simp add: calculate_hash_def block_dict_of_def)
  with v show ?thesis by blast
qed

text \<open>
  C1, as stated: on every chain, overwriting a field of sealed block \<open>i \<ge> 1\<close> with its stored
  hash left alone makes \<^verbatim>\<open>is_chain_valid\<close> return \<open>False\<close> and name index \<open>i\<close>. This fails in
  two ways. First, the loop stops at the first block that fails: block 2 of a chain whose
  block 1 has been overwritten before is sealed, its timestamp is overwritten, and the call
  names block 1, not block 2, whatever the digest function is (block 1 fails its hash
  check, and by \<open>valid_loop_tampered\<close> the loop returns there). Second, even where all
  earlier blocks pass, there is no digest with finitely many values, SHA-256 among them,
  for which every such overwriting is reported: by \<open>collision_undetected\<close> one that hits a
  collision of the digest passes.
\<close>

theorem tamper_detection_counterexample:
  "hash (chain demo_chain2_broken ! 2) =
     calculate_hash demo_digest (chain demo_chain2_broken ! 2) \<and>
   hash demo_block2_tampered = hash (chain demo_chain2_broken ! 2) \<and>
   block_dict_of demo_block2_tampered \<noteq> block_dict_of (chain demo_chain2_broken ! 2) \<and>
   calculate_hash demo_digest demo_block2_tampered \<noteq>
     calculate_hash demo_digest (chain demo_chain2_broken ! 2) \<and>
   is_chain_valid demo_digest
     (demo_chain2_broken\<lparr>chain := (chain demo_chain2_broken)[2 := demo_block2_tampered]\<rparr>) =
     (False, [''Block 1 has been tampered!'']) \<and>
   is_chain_valid demo_digest
     (demo_chain2_broken\<lparr>chain := (chain demo_chain2_broken)[2 := demo_block2_tampered]\<rparr>) \<noteq>
     (False, [''Block 2 has been tampered!'']) \<and>
   \<not> (\<exists>H :: digest_fn. finite (range H) \<and>
        (\<forall>self i b'.
           1 \<le> i \<and> i < length (chain self) \<and>
           (\<forall>j. 1 \<le> j \<and> j < i \<longrightarrow> block_passes H (chain self) j) \<and>
           hash (chain self ! i) = calculate_hash H (chain self ! i) \<and>
           hash b' = hash (chain self ! i) \<and>
           block_dict_of b' \<noteq> block_dict_of (chain self ! i) \<longrightarrow>
           is_chain_valid H (self\<lparr>chain := (chain self)[i := b']\<rparr>) =
             (False, [''Block '' @ str_int (int i) @ '' has been tampered!''])))"
proof -
  have first: "hash (chain demo_chain2_broken ! 2) =
     calculate_hash demo_digest (chain demo_chain2_broken ! 2) \<and>
   hash demo_block2_tampered = hash (chain demo_chain2_broken ! 2) \<and>
   block_dict_of demo_block2_tampered \<noteq> block_dict_of (chain demo_chain2_broken ! 2) \<and>
   calculate_hash demo_digest demo_block2_tampered \<noteq>
     calculate_hash demo_digest (chain demo_chain2_broken ! 2) \<and>
   is_chain_valid demo_digest
     (demo_chain2_broken\<lparr>chain := (chain demo_chain2_broken)[2 := demo_block2_tampered]\<rparr>) =
     (False, [''Block 1 has been tampered!'']) \<and>
   is_chain_valid demo_digest
     (demo_chain2_broken\<lparr>chain := (chain demo_chain2_broken)[2 := demo_block2_tampered]\<rparr>) \<noteq>
     (False, [''Block 2 has been tampered!''])"
    by code_simp
  have second: "\<not> (\<exists>H :: digest_fn. finite (range H) \<and>
        (\<forall>self i b'.
           1 \<le> i \<and> i < length (chain self) \<and>
           (\<forall>j. 1 \<le> j \<and> j < i \<longrightarrow> block_passes H (chain self) j) \<and>
           hash (chain self ! i) = calculate_hash H (chain self ! i) \<and>
           hash b' = hash (chain self ! i) \<and>
           block_dict_of b' \<noteq> block_dict_of (chain self ! i) \<longrightarrow>
           is_chain_valid H (self\<lparr>chain := (chain self)[i := b']\<rparr>) =
             (False, [''Block '' @ str_int (int i) @ '' has been tampered!''])))"
  proof
    assume "\<exists>H :: digest_fn. finite (range H) \<and>
        (\<forall>self i b'.
           1 \<le> i \<and> i < length (chain self) \<and>
           (\<forall>j. 1 \<le> j \<and> j < i \<longrightarrow> block_passes H (chain self) j) \<and>
           hash (chain self ! i) = calculate_hash H (chain self ! i) \<and>
           hash b' = hash (chain self ! i) \<and>
           block_dict_of b' \<noteq> block_dict_of (chain self ! i) \<longrightarrow>
           is_chain_valid H (self\<lparr>chain := (chain self)[i := b']\<rparr>) =
             (False, [''Block '' @ str_int (int i) @ '' has been tampered!'']))"
    then obtain H :: digest_fn where fin: "finite (range H)"
      and all: "\<And>self i b'.
           1 \<le> i \<and> i < length (chain self) \<and>
           (\<forall>j. 1 \<le> j \<and> j < i \<longrightarrow> block_passes H (chain self) j) \<and>
           hash (chain self ! i) = calculate_hash H (chain self ! i) \<and>
           hash b' = hash (chain self ! i) \<and>
           block_dict_of b' \<noteq> block_dict_of (chain self ! i) \<Longrightarrow>
           is_chain_valid H (self\<lparr>chain := (chain self)[i := b']\<rparr>) =
             (False, [''Block '' @ str_int (int i) @ '' has been tampered!''])"
      by blast
    from collision_undetected [OF fin] obtain self i b' where
      hyp: "1 \<le> i \<and> i < length (chain self) \<and>
           (\<forall>j. 1 \<le> j \<and> j < i \<longrightarrow> block_passes H (chain self) j) \<and>
           hash (chain self ! i) = calculate_hash H (chain self ! i) \<and>
           hash b' = hash (chain self ! i) \<and>
           block_dict_of b' \<noteq> block_dict_of (chain self ! i)"
      and valid: "is_chain_valid H (self\<lparr>chain := (chain self)[i := b']\<rparr>) = (True, [])"
      by blast
    from all [OF hyp] valid show False by simp
  qed
  from first second show ?thesis by simp
qed


text \<open>
  C1, amended: let block \<open>i \<ge> 1\<close> of a chain be sealed, and overwrite any of its five content
  fields so that the content changes, the stored hash left alone. (1) If the blocks at
  positions \<open>1 .. i - 1\<close> pass validation (as on any chain that was valid before) and the
  digest of the new content differs from the digest of the old content, \<^verbatim>\<open>is_chain_valid\<close>
  returns \<open>False\<close> and prints the tamper message for index \<open>i\<close>. (2) If some earlier block
  fails, with \<open>k < i\<close> the first such index, the call returns what it returned before the
  overwriting: \<open>False\<close> with a message that names \<open>k\<close>. (3) If the digest has the same value
  on the old and the new content, block \<open>i\<close> passes its hash check; on a chain all of whose
  blocks passed, with the previous hash of block \<open>i\<close> kept, the call still returns \<open>True\<close>.
\<close>

theorem tamper_detected:
  assumes "1 \<le> i" and "i < length (chain self)"
    and "hash (chain self ! i) = calculate_hash H (chain self ! i)"
    and "hash b' = hash (chain self ! i)"
    and "block_dict_of b' \<noteq> block_dict_of (chain self ! i)"
  shows "((\<forall>j. 1 \<le> j \<and> j < i \<longrightarrow> block_passes H (chain self) j) \<and>
          H (block_dict_of b') \<noteq> H (block_dict_of (chain self ! i)) \<longrightarrow>
            is_chain_valid H (self\<lparr>chain := (chain self)[i := b']\<rparr>) =
              (False, [''Block '' @ str_int (int i) @ '' has been tampered!''])) \<and>
         (\<forall>k. 1 \<le> k \<and> k < i \<and> (\<forall>j. 1 \<le> j \<and> j < k \<longrightarrow> block_passes H (chain self) j) \<and>
              \<not> block_passes H (chain self) k \<longrightarrow>
            is_chain_valid H (self\<lparr>chain := (chain self)[i := b']\<rparr>) = is_chain_valid H self \<and>
            (is_chain_valid H self =
               (False, [''Block '' @ str_int (int k) @ '' has been tampered!'']) \<or>
             is_chain_valid H self =
               (False, [''Block '' @ str_int (int k) @ '' has an invalid previous hash!'']))) \<and>
         ((\<forall>j. 1 \<le> j \<and> j < length (chain self) \<longrightarrow> block_passes H (chain self) j) \<and>
          previous_hash b' = previous_hash (chain self ! i) \<and>
          H (block_dict_of b') = H (block_dict_of (chain self ! i)) \<longrightarrow>
            hash b' = calculate_hash H b' \<and>
            is_chain_valid H (self\<lparr>chain := (chain self)[i := b']\<rparr>) = (True, []))"
proof (intro conjI allI impI)
  let ?ch = "chain self" and ?ch' = "(chain self)[i := b']"
  have valid': "is_chain_valid H (self\<lparr>chain := ?ch'\<rparr>) = valid_loop H ?ch' 1"
    by (simp add: is_chain_valid_def)
  have valid: "is_chain_valid H self = valid_loop H ?ch 1"
    by (simp only: is_chain_valid_def)
  {
    assume a: "(\<forall>j. 1 \<le> j \<and> j < i \<longrightarrow> block_passes H ?ch j) \<and>
      H (block_dict_of b') \<noteq> H (block_dict_of (?ch ! i))"
    with assms(3,4) have bad: "hash b' \<noteq> calculate_hash H b'"
      by (auto simp: calculate_hash_def)
    have "block_passes H ?ch' j" if "1 \<le> j \<and> j < i" for j
      using that a by (simp add: block_passes_before_update)
    then have "valid_loop H ?ch' 1 = valid_loop H ?ch' i"
      using assms(1,2) by (intro valid_loop_skip) simp_all
    also have "\<dots> = (False, [''Block '' @ str_int (int i) @ '' has been tampered!''])"
      using assms(2) bad by (intro valid_loop_tampered) simp_all
    finally show "is_chain_valid H (self\<lparr>chain := ?ch'\<rparr>) =
        (False, [''Block '' @ str_int (int i) @ '' has been tampered!''])"
      by (simp only: valid')
  }
  {
    fix k
    assume a: "1 \<le> k \<and> k < i \<and> (\<forall>j. 1 \<le> j \<and> j < k \<longrightarrow> block_passes H ?ch j) \<and>
      \<not> block_passes H ?ch k"
    then have k: "1 \<le> k" "k < i" "k < length ?ch" "k < length ?ch'"
      using assms(2) by simp_all
    from a have before: "\<forall>j. 1 \<le> j \<and> j < k \<longrightarrow> block_passes H ?ch j" by blast
    from a have fails: "\<not> block_passes H ?ch k" by blast
    have before': "\<forall>j. 1 \<le> j \<and> j < k \<longrightarrow> block_passes H ?ch' j"
    proof (intro allI impI)
      fix j assume j: "1 \<le> j \<and> j < k"
      with k have "j < i" by simp
      with j before show "block_passes H ?ch' j" by (simp add: block_passes_before_update)
    qed
    from fails k have fails': "\<not> block_passes H ?ch' k"
      by (simp add: block_passes_before_update)
    from k have "k \<noteq> i" and "k - 1 \<noteq> i" by linarith+
    then have same: "?ch' ! k = ?ch ! k" "?ch' ! (k - 1) = ?ch ! (k - 1)" by simp_all
    note r = valid_loop_first_failure [OF k(1) k(3) before fails]
    note r' = valid_loop_first_failure [OF k(1) k(4) before' fails']
    from r r' same have eq: "valid_loop H ?ch' 1 = valid_loop H ?ch 1" by simp
    then show "is_chain_valid H (self\<lparr>chain := ?ch'\<rparr>) = is_chain_valid H self"
      by (simp only: valid valid')
    from r show "is_chain_valid H self =
               (False, [''Block '' @ str_int (int k) @ '' has been tampered!'']) \<or>
             is_chain_valid H self =
               (False, [''Block '' @ str_int (int k) @ '' has an invalid previous hash!''])"
      unfolding valid by (cases "hash (?ch ! k) \<noteq> calculate_hash H (?ch ! k)") simp_all
  }
  {
    assume a: "(\<forall>j. 1 \<le> j \<and> j < length ?ch \<longrightarrow> block_passes H ?ch j) \<and>
      previous_hash b' = previous_hash (?ch ! i) \<and>
      H (block_dict_of b') = H (block_dict_of (?ch ! i))"
    with assms(3,4) show good: "hash b' = calculate_hash H b'"
      by (auto simp: calculate_hash_def)
    have hash_same: "hash (?ch' ! x) = hash (?ch ! x)" if "x < length ?ch" for x
      using that assms(4) by (cases "x = i") simp_all
    have "block_passes H ?ch' j" if j: "1 \<le> j \<and> j < length ?ch'" for j
    proof -
      from j have jl: "j < length ?ch" by simp
      then have pl: "j - 1 < length ?ch" by linarith
      from j a have p: "block_passes H ?ch j" by simp
      show ?thesis
      proof (cases "j = i")
        case True
        from p True a have "previous_hash b' = hash (?ch ! (i - 1))"
          by (simp add: block_passes_def)
        moreover from pl True have "hash (?ch' ! (i - 1)) = hash (?ch ! (i - 1))"
          by (simp add: hash_same)
        ultimately show ?thesis using True jl good
          by (simp add: block_passes_def)
      next
        case False
        then have "?ch' ! j = ?ch ! j" by simp
        moreover from pl have "hash (?ch' ! (j - 1)) = hash (?ch ! (j - 1))"
          by (rule hash_same)
        ultimately show ?thesis using p by (simp add: block_passes_def)
      qed
    qed
    then have "valid_loop H ?ch' 1 = (True, [])"
      by (intro valid_loop_all) simp
    then show "is_chain_valid H (self\<lparr>chain := ?ch'\<rparr>) = (True, [])"
      by (simp only: valid')
  }
qed


lemma passes_of_valid:
  assumes "is_chain_valid H self = (True, out)"
  shows "\<forall>j. 1 \<le> j \<and> j < length (chain self) \<longrightarrow> block_passes H (chain self) j"
proof (intro allI impI)
  fix j assume j: "1 \<le> j \<and> j < length (chain self)"
  from assms have "fst (valid_loop H (chain self) 1)" by (simp add: is_chain_valid_def)
  with j show "block_passes H (chain self) j" by (intro valid_loop_True [of H _ 1]) simp_all
qed

lemma demo_tamper_facts:
  "hash (chain demo_chain2 ! 2) = calculate_hash demo_digest (chain demo_chain2 ! 2)"
  "hash demo_block2_tampered = hash (chain demo_chain2 ! 2)"
  "block_dict_of demo_block2_tampered \<noteq> block_dict_of (chain demo_chain2 ! 2)"
  "demo_digest (block_dict_of demo_block2_tampered) \<noteq>
     demo_digest (block_dict_of (chain demo_chain2 ! 2))"
  "hash (chain demo_chain2 ! 1) = calculate_hash demo_digest (chain demo_chain2 ! 1)"
  "hash demo_block1_tampered = hash (chain demo_chain2 ! 1)"
  "block_dict_of demo_block1_tampered \<noteq> block_dict_of (chain demo_chain2 ! 1)"
  "demo_digest (block_dict_of demo_block1_tampered) \<noteq>
     demo_digest (block_dict_of (chain demo_chain2 ! 1))"
  "hash demo_block2_retimed = hash (chain demo_chain2 ! 2)"
  "block_dict_of demo_block2_retimed \<noteq> block_dict_of (chain demo_chain2 ! 2)"
  "previous_hash demo_block2_retimed = previous_hash (chain demo_chain2 ! 2)"
  "demo_digest (block_dict_of demo_block2_retimed) =
     demo_digest (block_dict_of (chain demo_chain2 ! 2))"
  by code_simp+

lemma demo_broken_facts:
  "hash (chain demo_chain2_broken ! 2) = calculate_hash demo_digest (chain demo_chain2_broken ! 2)"
  "hash demo_block2_tampered = hash (chain demo_chain2_broken ! 2)"
  "block_dict_of demo_block2_tampered \<noteq> block_dict_of (chain demo_chain2_broken ! 2)"
  "\<not> block_passes demo_digest (chain demo_chain2_broken) 1"
  by code_simp+

theorem tamper_detected_witness:
  "is_chain_valid demo_digest demo_chain2 = (True, []) \<and>
   block_passes demo_digest (chain demo_chain2) 1 \<and>
   block_dict_of demo_block2_tampered \<noteq> block_dict_of (chain demo_chain2 ! 2) \<and>
   is_chain_valid demo_digest
     (demo_chain2\<lparr>chain := (chain demo_chain2)[2 := demo_block2_tampered]\<rparr>) =
     (False, [''Block 2 has been tampered!'']) \<and>
   block_dict_of demo_block1_tampered \<noteq> block_dict_of (chain demo_chain2 ! 1) \<and>
   is_chain_valid demo_digest
     (demo_chain2\<lparr>chain := (chain demo_chain2)[1 := demo_block1_tampered]\<rparr>) =
     (False, [''Block 1 has been tampered!'']) \<and>
   \<not> block_passes demo_digest (chain demo_chain2_broken) 1 \<and>
   is_chain_valid demo_digest
     (demo_chain2_broken\<lparr>chain := (chain demo_chain2_broken)[2 := demo_block2_tampered]\<rparr>) =
     (False, [''Block 1 has been tampered!'']) \<and>
   block_dict_of demo_block2_retimed \<noteq> block_dict_of (chain demo_chain2 ! 2) \<and>
   demo_digest (block_dict_of demo_block2_retimed) =
     demo_digest (block_dict_of (chain demo_chain2 ! 2)) \<and>
   is_chain_valid demo_digest
     (demo_chain2\<lparr>chain := (chain demo_chain2)[2 := demo_block2_retimed]\<rparr>) = (True, [])"
proof -
  have len2: "2 < length (chain demo_chain2)" and len1: "1 < length (chain demo_chain2)"
    and lenb: "2 < length (chain demo_chain2_broken)"
    by (simp_all add: demo_chain2_def demo_chain2_broken_def)
  have one: "(1::nat) \<le> 1" and two: "(1::nat) \<le> 2" by simp_all
  note all = passes_of_valid [OF demo_valid]
  from all len1 have p1: "block_passes demo_digest (chain demo_chain2) 1" by simp
  have pre2: "\<forall>j. 1 \<le> j \<and> j < (2::nat) \<longrightarrow> block_passes demo_digest (chain demo_chain2) j"
  proof (intro allI impI)
    fix j :: nat assume "1 \<le> j \<and> j < 2"
    then have "j = 1" by linarith
    with p1 show "block_passes demo_digest (chain demo_chain2) j" by simp
  qed
  have pre1: "\<forall>j. 1 \<le> j \<and> j < (1::nat) \<longrightarrow> block_passes demo_digest (chain demo_chain2) j"
    by simp
  have preb: "\<forall>j. 1 \<le> j \<and> j < (1::nat) \<longrightarrow> block_passes demo_digest (chain demo_chain2_broken) j"
    by simp
  note t2 = tamper_detected [where H = demo_digest and self = demo_chain2 and i = 2
      and b' = demo_block2_tampered, OF two len2 demo_tamper_facts(1,2,3)]
  note t1 = tamper_detected [where H = demo_digest and self = demo_chain2 and i = 1
      and b' = demo_block1_tampered, OF one len1 demo_tamper_facts(5,6,7)]
  note tb = tamper_detected [where H = demo_digest and self = demo_chain2_broken and i = 2
      and b' = demo_block2_tampered, OF two lenb demo_broken_facts(1,2,3)]
  note tr = tamper_detected [where H = demo_digest and self = demo_chain2 and i = 2
      and b' = demo_block2_retimed, OF two len2 demo_tamper_facts(1,9,10)]
  from t2 pre2 demo_tamper_facts(4)
  have r2: "is_chain_valid demo_digest
     (demo_chain2\<lparr>chain := (chain demo_chain2)[2 := demo_block2_tampered]\<rparr>) =
     (False, [''Block 2 has been tampered!''])"
    by (simp add: str_int_2)
  from t1 pre1 demo_tamper_facts(8)
  have r1: "is_chain_valid demo_digest
     (demo_chain2\<lparr>chain := (chain demo_chain2)[1 := demo_block1_tampered]\<rparr>) =
     (False, [''Block 1 has been tampered!''])"
    by (simp add: str_int_1)
  have k: "1 \<le> (1::nat) \<and> (1::nat) < 2 \<and>
      (\<forall>j. 1 \<le> j \<and> j < (1::nat) \<longrightarrow> block_passes demo_digest (chain demo_chain2_broken) j) \<and>
      \<not> block_passes demo_digest (chain demo_chain2_broken) 1"
    using demo_broken_facts(4) by simp
  from tb [THEN conjunct2, THEN conjunct1, rule_format, OF k]
  have "is_chain_valid demo_digest
     (demo_chain2_broken\<lparr>chain := (chain demo_chain2_broken)[2 := demo_block2_tampered]\<rparr>) =
     is_chain_valid demo_digest demo_chain2_broken"
    by simp
  moreover have "is_chain_valid demo_digest demo_chain2_broken =
      (False, [''Block 1 has been tampered!''])" by code_simp
  ultimately have rb: "is_chain_valid demo_digest
     (demo_chain2_broken\<lparr>chain := (chain demo_chain2_broken)[2 := demo_block2_tampered]\<rparr>) =
     (False, [''Block 1 has been tampered!''])" by simp
  from tr all demo_tamper_facts(11,12)
  have rr: "is_chain_valid demo_digest
     (demo_chain2\<lparr>chain := (chain demo_chain2)[2 := demo_block2_retimed]\<rparr>) = (True, [])"
    by simp
  from demo_valid p1 demo_tamper_facts(3) r2 demo_tamper_facts(7) r1 demo_broken_facts(4) rb
    demo_tamper_facts(10) demo_tamper_facts(12) rr
  show ?thesis by simp
qed

text \<open>
  C7, as stated: \<^verbatim>\<open>add_transaction\<close> returns success on a valid transaction and failure
  otherwise. The function has no \<^verbatim>\<open>return\<close> statement: the value returned for a valid
  transaction and the one returned for an invalid one are the same \<open>None\<close>.
\<close>

theorem add_transaction_return_counterexample:
  "fst (add_transaction demo_chain0 ''Alice'' ''Bob'' (PyFloat (3 / 2))) = PyNone \<and>
   fst (add_transaction demo_chain0 '''' ''Bob'' (PyFloat (3 / 2))) = PyNone \<and>
   fst (add_transaction demo_chain0 ''Alice'' ''Bob'' (PyFloat (3 / 2))) =
     fst (add_transaction demo_chain0 '''' ''Bob'' (PyFloat (3 / 2)))"
  by (simp add: add_transaction_def)

text \<open>
  C7, amended: \<^verbatim>\<open>add_transaction\<close> returns \<open>None\<close> in both cases. When sender and receiver
  are non-empty and the amount is positive it appends exactly that transaction to the
  pending buffer and prints nothing; otherwise it prints \<open>Invalid transaction\<close> and leaves
  the object as it was. The chain and the difficulty are untouched in both cases.
\<close>

theorem add_transaction_effect:
  "fst (add_transaction self s r a) = PyNone \<and>
   chain (fst (snd (add_transaction self s r a))) = chain self \<and>
   difficulty (fst (snd (add_transaction self s r a))) = difficulty self \<and>
   (s \<noteq> [] \<and> r \<noteq> [] \<and> gt_zero a \<longrightarrow>
      snd (add_transaction self s r a) =
        (self\<lparr>pending_transactions :=
                 pending_transactions self @ [\<lparr>sender = s, receiver = r, amount = a\<rparr>]\<rparr>, [])) \<and>
   (\<not> (s \<noteq> [] \<and> r \<noteq> [] \<and> gt_zero a) \<longrightarrow>
      snd (add_transaction self s r a) = (self, [''Invalid transaction'']))"
  by (simp add: add_transaction_def)

theorem add_transaction_effect_witness:
  "add_transaction demo_chain0 ''Alice'' ''Bob'' (PyFloat (3 / 2)) =
     (PyNone, demo_chain0\<lparr>pending_transactions :=
        [\<lparr>sender = ''Alice'', receiver = ''Bob'', amount = PyFloat (3 / 2)\<rparr>]\<rparr>, []) \<and>
   add_transaction demo_chain0 '''' ''Bob'' (PyFloat (3 / 2)) = (PyNone, demo_chain0, [''Invalid transaction'']) \<and>
   add_transaction demo_chain0 ''Alice'' '''' (PyFloat (3 / 2)) = (PyNone, demo_chain0, [''Invalid transaction'']) \<and>
   add_transaction demo_chain0 ''Alice'' ''Bob'' (PyInt 0) = (PyNone, demo_chain0, [''Invalid transaction''])"
proof -
  have p: "pending_transactions demo_chain0 = []" by (simp add: demo_chain0_def)
  note w1 = add_transaction_effect [of demo_chain0 "''Alice''" "''Bob''" "PyFloat (3 / 2)"]
  note w2 = add_transaction_effect [of demo_chain0 "''''" "''Bob''" "PyFloat (3 / 2)"]
  note w3 = add_transaction_effect [of demo_chain0 "''Alice''" "''''" "PyFloat (3 / 2)"]
  note w4 = add_transaction_effect [of demo_chain0 "''Alice''" "''Bob''" "PyInt 0"]
  from w1 p have 1: "add_transaction demo_chain0 ''Alice'' ''Bob'' (PyFloat (3 / 2)) =
     (PyNone, demo_chain0\<lparr>pending_transactions :=
        [\<lparr>sender = ''Alice'', receiver = ''Bob'', amount = PyFloat (3 / 2)\<rparr>]\<rparr>, [])"
    by (simp add: prod_eq_iff)
  from w2 have 2: "add_transaction demo_chain0 '''' ''Bob'' (PyFloat (3 / 2)) =
     (PyNone, demo_chain0, [''Invalid transaction''])"
    by (simp add: prod_eq_iff)
  from w3 have 3: "add_transaction demo_chain0 ''Alice'' '''' (PyFloat (3 / 2)) =
     (PyNone, demo_chain0, [''Invalid transaction''])"
    by (simp add: prod_eq_iff)
  from w4 have 4: "add_transaction demo_chain0 ''Alice'' ''Bob'' (PyInt 0) =
     (PyNone, demo_chain0, [''Invalid transaction''])"
    by (simp add: prod_eq_iff)
  from 1 2 3 4 show ?thesis by simp
qed

text \<open>
  C8, as stated: every stored transaction, the genesis block's included, has a positive
  amount and non-empty sender and receiver. The genesis transaction is built by
  \<^verbatim>\<open>create_genesis_block\<close> with amount 0, so it does not satisfy the invariant.
\<close>

theorem genesis_transaction_counterexample:
  "Blockchain demo_digest ''2024-01-01 00:00:00'' = Some demo_chain0 \<and>
   transactions (chain demo_chain0 ! 0) = [genesis_transaction] \<and>
   amount genesis_transaction = PyInt 0 \<and>
   \<not> tx_invariant (transactions (chain demo_chain0 ! 0) ! 0)"
  using demo_Blockchain
  by (simp add: demo_chain0_def demo_genesis_def genesis_transaction_def tx_invariant_def)

text \<open>
  C8, amended: in every state reached from a freshly constructed chain by
  \<^verbatim>\<open>add_transaction\<close> and \<^verbatim>\<open>mine_block\<close> calls, every transaction in the pending buffer and
  in every block from index 1 on has a positive amount and non-empty sender and receiver;
  block 0 holds exactly the genesis transaction, whose sender and receiver are non-empty
  and whose amount is 0.
\<close>

theorem stored_transactions_invariant:
  assumes "Blockchain H ts0 = Some bc0" and "run H bc0 cs = Some (Inr bc)"
  shows "(\<forall>t \<in> set (pending_transactions bc). tx_invariant t) \<and>
         (\<forall>i. 1 \<le> i \<and> i < length (chain bc) \<longrightarrow>
              (\<forall>t \<in> set (transactions (chain bc ! i)). tx_invariant t)) \<and>
         transactions (chain bc ! 0) = [genesis_transaction] \<and>
         sender genesis_transaction \<noteq> [] \<and> receiver genesis_transaction \<noteq> [] \<and>
         amount genesis_transaction = PyInt 0"
  using built_chain_inv [OF assms]
  by (simp add: chain_inv_def genesis_transaction_def)

theorem stored_transactions_invariant_witness:
  "Blockchain demo_digest ''2024-01-01 00:00:00'' = Some demo_chain0 \<and>
   run demo_digest demo_chain0 demo_calls = Some (Inr demo_chain2) \<and>
   tx_invariant (transactions (chain demo_chain2 ! 1) ! 0) \<and>
   tx_invariant (transactions (chain demo_chain2 ! 2) ! 0) \<and>
   transactions (chain demo_chain2 ! 0) = [genesis_transaction]"
proof -
  note w = stored_transactions_invariant [OF demo_Blockchain demo_run]
  from w have g: "transactions (chain demo_chain2 ! 0) = [genesis_transaction]" by simp
  from w have all: "\<forall>i. 1 \<le> i \<and> i < length (chain demo_chain2) \<longrightarrow>
      (\<forall>t \<in> set (transactions (chain demo_chain2 ! i)). tx_invariant t)" by simp
  have m1: "transactions (chain demo_chain2 ! 1) ! 0 \<in> set (transactions (chain demo_chain2 ! 1))"
    by (simp add: demo_chain2_def demo_block1_def)
  have m2: "transactions (chain demo_chain2 ! 2) ! 0 \<in> set (transactions (chain demo_chain2 ! 2))"
    by (simp add: demo_chain2_def demo_block2_def)
  have l1: "(1::nat) \<le> 1 \<and> 1 < length (chain demo_chain2)" by (simp add: demo_chain2_def)
  have l2: "(1::nat) \<le> 2 \<and> 2 < length (chain demo_chain2)" by (simp add: demo_chain2_def)
  from all l1 m1 have t1: "tx_invariant (transactions (chain demo_chain2 ! 1) ! 0)" by blast
  from all l2 m2 have t2: "tx_invariant (transactions (chain demo_chain2 ! 2) ! 0)" by blast
  from demo_Blockchain demo_run t1 t2 g show ?thesis by simp
qed

end
